theory Spec2Isabelle
  imports Main "HOL-Library.AList"
begin

section \<open>The Python string operations used by app.py\<close>

text \<open>
  A Python \<open>str\<close> is modelled as a \<open>string\<close>; a \<open>char\<close> stands for the code point
  of the same number, so the model covers the texts over U+0000..U+00FF. The character
  tables below are those of CPython for these code points: \<open>str.isspace\<close> (which is also
  what \<open>\s\<close>, \<open>str.split()\<close> and \<open>str.strip()\<close> use), the class \<open>\w\<close> of the \<open>re\<close> module
  on \<open>str\<close> patterns, and \<open>str.lower\<close>.
\<close>

definition whitespace :: string where
  "whitespace =
     [CHR 0x09, CHR 0x0A, CHR 0x0B, CHR 0x0C, CHR 0x0D, CHR 0x1C, CHR 0x1D, CHR 0x1E,
      CHR 0x1F, CHR 0x20, CHR 0x85, CHR 0xA0]"

definition isspace :: "char \<Rightarrow> bool" where
  "isspace c = (c \<in> set whitespace)"

text \<open>
  The word characters: the ASCII letters and digits, the underscore, and the letters and
  numeric characters of U+0080..U+00FF (U+00AA, U+00B2, U+00B3, U+00B5, U+00B9, U+00BA,
  U+00BC..U+00BE, U+00C0..U+00D6, U+00D8..U+00F6, U+00F8..U+00FF).
\<close>

definition word_chars :: string where
  "word_chars =
     ''abcdefghijklmnopqrstuvwxyzABCDEFGHIJKLMNOPQRSTUVWXYZ0123456789_'' @
     [CHR 0xAA, CHR 0xB2, CHR 0xB3, CHR 0xB5, CHR 0xB9, CHR 0xBA, CHR 0xBC, CHR 0xBD,
      CHR 0xBE, CHR 0xC0, CHR 0xC1, CHR 0xC2, CHR 0xC3, CHR 0xC4, CHR 0xC5, CHR 0xC6,
      CHR 0xC7, CHR 0xC8, CHR 0xC9, CHR 0xCA, CHR 0xCB, CHR 0xCC, CHR 0xCD, CHR 0xCE,
      CHR 0xCF, CHR 0xD0, CHR 0xD1, CHR 0xD2, CHR 0xD3, CHR 0xD4, CHR 0xD5, CHR 0xD6,
      CHR 0xD8, CHR 0xD9, CHR 0xDA, CHR 0xDB, CHR 0xDC, CHR 0xDD, CHR 0xDE, CHR 0xDF,
      CHR 0xE0, CHR 0xE1, CHR 0xE2, CHR 0xE3, CHR 0xE4, CHR 0xE5, CHR 0xE6, CHR 0xE7,
      CHR 0xE8, CHR 0xE9, CHR 0xEA, CHR 0xEB, CHR 0xEC, CHR 0xED, CHR 0xEE, CHR 0xEF,
      CHR 0xF0, CHR 0xF1, CHR 0xF2, CHR 0xF3, CHR 0xF4, CHR 0xF5, CHR 0xF6, CHR 0xF8,
      CHR 0xF9, CHR 0xFA, CHR 0xFB, CHR 0xFC, CHR 0xFD, CHR 0xFE, CHR 0xFF]"

definition isword :: "char \<Rightarrow> bool" where
  "isword c = (c \<in> set word_chars)"

text \<open>
  The characters that \<open>str.lower\<close> changes (A..Z, U+00C0..U+00D6, U+00D8..U+00DE), and
  their images, 32 places further.
\<close>

definition upper_chars :: string where
  "upper_chars =
     ''ABCDEFGHIJKLMNOPQRSTUVWXYZ'' @
     [CHR 0xC0, CHR 0xC1, CHR 0xC2, CHR 0xC3, CHR 0xC4, CHR 0xC5, CHR 0xC6, CHR 0xC7,
      CHR 0xC8, CHR 0xC9, CHR 0xCA, CHR 0xCB, CHR 0xCC, CHR 0xCD, CHR 0xCE, CHR 0xCF,
      CHR 0xD0, CHR 0xD1, CHR 0xD2, CHR 0xD3, CHR 0xD4, CHR 0xD5, CHR 0xD6, CHR 0xD8,
      CHR 0xD9, CHR 0xDA, CHR 0xDB, CHR 0xDC, CHR 0xDD, CHR 0xDE]"

definition lower_chars :: string where
  "lower_chars =
     ''abcdefghijklmnopqrstuvwxyz'' @
     [CHR 0xE0, CHR 0xE1, CHR 0xE2, CHR 0xE3, CHR 0xE4, CHR 0xE5, CHR 0xE6, CHR 0xE7,
      CHR 0xE8, CHR 0xE9, CHR 0xEA, CHR 0xEB, CHR 0xEC, CHR 0xED, CHR 0xEE, CHR 0xEF,
      CHR 0xF0, CHR 0xF1, CHR 0xF2, CHR 0xF3, CHR 0xF4, CHR 0xF5, CHR 0xF6, CHR 0xF8,
      CHR 0xF9, CHR 0xFA, CHR 0xFB, CHR 0xFC, CHR 0xFD, CHR 0xFE]"

definition lower_char :: "char \<Rightarrow> char" where
  "lower_char c = (case map_of (zip upper_chars lower_chars) c of None \<Rightarrow> c | Some l \<Rightarrow> l)"

text \<open>\<open>s.lower()\<close>\<close>

definition str_lower :: "string \<Rightarrow> string" where
  "str_lower s = map lower_char s"

text \<open>\<open>s.strip()\<close>: whitespace is removed at both ends.\<close>

definition str_strip :: "string \<Rightarrow> string" where
  "str_strip s = rev (dropWhile isspace (rev (dropWhile isspace s)))"

text \<open>\<open>s.split()\<close> with no argument: the maximal runs of characters that are not whitespace.\<close>

function str_split :: "string \<Rightarrow> string list" where
  "str_split s =
     (case dropWhile isspace s of
        [] \<Rightarrow> []
      | c # cs \<Rightarrow>
          (c # takeWhile (\<lambda>x. \<not> isspace x) cs) # str_split (dropWhile (\<lambda>x. \<not> isspace x) cs))"
  by pat_completeness auto
termination
proof (relation "measure length", goal_cases)
  case 1
  show ?case by simp
next
  case (2 s c cs)
  have "length (dropWhile (\<lambda>x. \<not> isspace x) cs) \<le> length cs"
    by (rule length_dropWhile_le)
  moreover have "length (c # cs) \<le> length s"
    using 2 length_dropWhile_le [of isspace s] by simp
  ultimately show ?case by simp
qed

text \<open>\<open>sep.join(xs)\<close>\<close>

fun str_join :: "string \<Rightarrow> string list \<Rightarrow> string" where
  "str_join sep [] = []"
| "str_join sep [x] = x"
| "str_join sep (x # y # ys) = x @ sep @ str_join sep (y # ys)"

text \<open>Whether a string has two consecutive space characters.\<close>

fun double_space :: "string \<Rightarrow> bool" where
  "double_space (a # b # cs) = ((a = CHR '' '' \<and> b = CHR '' '') \<or> double_space (b # cs))"
| "double_space _ = False"

text \<open>A list of words without the empty words at its start and at its end.\<close>

definition trim_empty :: "string list \<Rightarrow> string list" where
  "trim_empty ws = rev (dropWhile (\<lambda>w. w = []) (rev (dropWhile (\<lambda>w. w = []) ws)))"

text \<open>\<open>re.sub(r'\s+', ' ', text)\<close>: every maximal run of whitespace becomes one space.\<close>

function collapse_ws :: "string \<Rightarrow> string" where
  "collapse_ws [] = []"
| "collapse_ws (c # cs) =
     (if isspace c then CHR '' '' # collapse_ws (dropWhile isspace cs) else c # collapse_ws cs)"
  by pat_completeness auto
termination
  by (relation "measure length") (auto simp: less_Suc_eq_le length_dropWhile_le)

text \<open>
  \<open>re.split(pattern, text)\<close> for a pattern \<open>[...]+\<close> that matches the maximal runs of the
  characters satisfying \<open>p\<close>: the pieces of the text between the runs, the empty pieces
  before a leading run and after a trailing run included.
\<close>

function re_split :: "(char \<Rightarrow> bool) \<Rightarrow> string \<Rightarrow> string list" where
  "re_split p s =
     (case dropWhile (\<lambda>x. \<not> p x) s of
        [] \<Rightarrow> [s]
      | c # rest \<Rightarrow> takeWhile (\<lambda>x. \<not> p x) s # re_split p (dropWhile p rest))"
  by pat_completeness auto
termination
proof (relation "measure (\<lambda>(p, s). length s)", goal_cases)
  case 1
  show ?case by simp
next
  case (2 p s c rest)
  have "length (dropWhile p rest) \<le> length rest"
    by (rule length_dropWhile_le)
  moreover have "length (c # rest) \<le> length s"
    using 2 length_dropWhile_le [of "\<lambda>x. \<not> p x" s] by simp
  ultimately show ?case by simp
qed

text \<open>The characters of the class \<open>[.!?]\<close>.\<close>

definition is_terminator :: "char \<Rightarrow> bool" where
  "is_terminator c = (c = CHR ''.'' \<or> c = CHR ''!'' \<or> c = CHR ''?'')"

text \<open>
  \<open>repr(s)\<close> of a string, as CPython writes it: between double quotes when the string
  has an apostrophe and no double quote, between apostrophes otherwise; the quote and the
  backslash are escaped, so are tab, newline and carriage return, and the characters that
  are not printable (U+0000..U+001F, U+007F..U+00A0, U+00AD) are written \<open>\xhh\<close>.
\<close>

definition unprintable :: string where
  "unprintable =
     [CHR 0x00, CHR 0x01, CHR 0x02, CHR 0x03, CHR 0x04, CHR 0x05, CHR 0x06, CHR 0x07,
      CHR 0x08, CHR 0x09, CHR 0x0A, CHR 0x0B, CHR 0x0C, CHR 0x0D, CHR 0x0E, CHR 0x0F,
      CHR 0x10, CHR 0x11, CHR 0x12, CHR 0x13, CHR 0x14, CHR 0x15, CHR 0x16, CHR 0x17,
      CHR 0x18, CHR 0x19, CHR 0x1A, CHR 0x1B, CHR 0x1C, CHR 0x1D, CHR 0x1E, CHR 0x1F,
      CHR 0x7F, CHR 0x80, CHR 0x81, CHR 0x82, CHR 0x83, CHR 0x84, CHR 0x85, CHR 0x86,
      CHR 0x87, CHR 0x88, CHR 0x89, CHR 0x8A, CHR 0x8B, CHR 0x8C, CHR 0x8D, CHR 0x8E,
      CHR 0x8F, CHR 0x90, CHR 0x91, CHR 0x92, CHR 0x93, CHR 0x94, CHR 0x95, CHR 0x96,
      CHR 0x97, CHR 0x98, CHR 0x99, CHR 0x9A, CHR 0x9B, CHR 0x9C, CHR 0x9D, CHR 0x9E,
      CHR 0x9F, CHR 0xA0, CHR 0xAD]"

definition hex_digit :: "nat \<Rightarrow> char" where
  "hex_digit n = ''0123456789abcdef'' ! n"

definition repr_char :: "char \<Rightarrow> char \<Rightarrow> string" where
  "repr_char quote c =
     (if c = quote \<or> c = CHR 0x5C then [CHR 0x5C, c]
      else if c = CHR 0x09 then [CHR 0x5C, CHR ''t'']
      else if c = CHR 0x0A then [CHR 0x5C, CHR ''n'']
      else if c = CHR 0x0D then [CHR 0x5C, CHR ''r'']
      else if c \<in> set unprintable
        then [CHR 0x5C, CHR ''x'', hex_digit (of_char c div 16), hex_digit (of_char c mod 16)]
      else [c])"

definition repr :: "string \<Rightarrow> string" where
  "repr s =
     (let quote = (if CHR 0x27 \<in> set s \<and> CHR 0x22 \<notin> set s then CHR 0x22 else CHR 0x27)
      in [quote] @ concat (map (repr_char quote) s) @ [quote])"

text \<open>
  \<open>xs.index(x)\<close>: the position of the first element equal to \<open>x\<close>; Python raises
  \<open>ValueError\<close> when there is none, with the message \<open>repr(x) is not in list\<close>.
\<close>

datatype exn = ValueError string | ServiceError string

fun str_exn :: "exn \<Rightarrow> string" where
  "str_exn (ValueError m) = m"
| "str_exn (ServiceError m) = m"

fun list_index :: "string list \<Rightarrow> string \<Rightarrow> exn + nat" where
  "list_index [] x = Inl (ValueError (repr x @ '' is not in list''))"
| "list_index (y # ys) x =
     (if y = x then Inr 0
      else (case list_index ys x of Inl e \<Rightarrow> Inl e | Inr i \<Rightarrow> Inr (Suc i)))"

text \<open>The position as a number: that of the first occurrence, the length when there is none.\<close>

definition position :: "string list \<Rightarrow> string \<Rightarrow> nat" where
  "position xs x = (case list_index xs x of Inl e \<Rightarrow> length xs | Inr i \<Rightarrow> i)"

text \<open>
  \<open>sorted(xs, key=f)\<close>: Python first computes the key of every element, in order (an
  exception raised by \<open>f\<close> ends the call), then sorts the elements by their keys with a
  stable sort.
\<close>

fun keyed :: "('a \<Rightarrow> exn + 'k) \<Rightarrow> 'a list \<Rightarrow> exn + ('k \<times> 'a) list" where
  "keyed f [] = Inr []"
| "keyed f (x # xs) =
     (case f x of
        Inl e \<Rightarrow> Inl e
      | Inr k \<Rightarrow> (case keyed f xs of Inl e \<Rightarrow> Inl e | Inr ps \<Rightarrow> Inr ((k, x) # ps)))"

definition sorted_key :: "('a \<Rightarrow> exn + 'k :: linorder) \<Rightarrow> 'a list \<Rightarrow> exn + 'a list" where
  "sorted_key f xs =
     (case keyed f xs of Inl e \<Rightarrow> Inl e | Inr ps \<Rightarrow> Inr (map snd (sort_key fst ps)))"

text \<open>
  \<open>sorted(xs, key=f, reverse=True)\<close> for a key that cannot raise: CPython reverses the
  list, sorts it with the stable ascending sort and reverses the result, so that elements
  with equal keys keep their original order.
\<close>

definition sorted_key_reverse :: "('a \<Rightarrow> 'k :: linorder) \<Rightarrow> 'a list \<Rightarrow> 'a list" where
  "sorted_key_reverse f xs = rev (sort_key f (rev xs))"

text \<open>\<open>xs[:n]\<close>: a negative \<open>n\<close> counts from the end.\<close>

definition slice_to :: "int \<Rightarrow> 'a list \<Rightarrow> 'a list" where
  "slice_to n xs = (if 0 \<le> n then take (nat n) xs else take (nat (int (length xs) + n)) xs)"

section \<open>The tokenizers\<close>

text \<open>\<open>simple_sentence_tokenize\<close> (app.py, lines 61 to 65).\<close>

definition simple_sentence_tokenize :: "string \<Rightarrow> string list" where
  "simple_sentence_tokenize text =
     (let text' = collapse_ws text;
          sentences = re_split is_terminator text'
      in map str_strip (filter (\<lambda>s. str_strip s \<noteq> []) sentences))"

text \<open>
  \<open>simple_word_tokenize\<close> (lines 67 to 70): \<open>re.sub(r'[^\w\s]', ' ', text)\<close> puts a space
  in the place of every character that is neither a word character nor whitespace.
\<close>

definition simple_word_tokenize :: "string \<Rightarrow> string list" where
  "simple_word_tokenize text =
     (let text' = map (\<lambda>c. if isword c \<or> isspace c then c else CHR '' '') text
      in str_split (str_lower text'))"

section \<open>The class TextSummarizer\<close>

text \<open>
  The Groq client is outside the repository: it is a field of the object, a function from
  the prompt to the content of the first choice of the answer, or to the exception the
  call raised.
\<close>

type_synonym groq = "string \<Rightarrow> exn + string"

record TextSummarizer =
  groq_client :: groq
  stop_words :: "string set"

text \<open>\<open>__init__\<close> (lines 73 to 80), with the client made from the API key as argument.\<close>

definition TextSummarizer_init :: "groq \<Rightarrow> TextSummarizer" where
  "TextSummarizer_init client =
     \<lparr> groq_client = client,
       stop_words = set
         [''i'', ''me'', ''my'', ''myself'', ''we'', ''our'', ''ours'', ''ourselves'', ''you'',
          ''you're'', ''you've'', ''you'll'', ''you'd'', ''your'', ''yours'', ''yourself'',
          ''yourselves'', ''he'', ''him'', ''his'', ''himself'', ''she'', ''she's'', ''her'',
          ''hers'', ''herself'', ''it'', ''it's'', ''its'', ''itself'', ''they'', ''them'',
          ''their'', ''theirs'', ''themselves'', ''what'', ''which'', ''who'', ''whom''] \<rparr>"

text \<open>\<open>preprocess_text\<close> (lines 82 to 86).\<close>

definition preprocess_text :: "string \<Rightarrow> string" where
  "preprocess_text text =
     (let text1 = collapse_ws text;
          text2 = filter (\<lambda>c. isword c \<or> isspace c \<or> c = CHR ''.'') text1
      in str_strip text2)"

text \<open>
  \<open>extractive_summarize\<close> (lines 88 to 125), in the stages of its body. Lines 98 to 103:
  the words of the document that are kept, and their frequency table.
\<close>

definition kept_words :: "TextSummarizer \<Rightarrow> string \<Rightarrow> string list" where
  "kept_words self text =
     filter (\<lambda>word. word \<notin> stop_words self \<and> str_strip word \<noteq> []) (simple_word_tokenize text)"

definition count_word :: "string \<Rightarrow> (string \<rightharpoonup> int) \<Rightarrow> (string \<rightharpoonup> int)" where
  "count_word word word_freq =
     word_freq(word \<mapsto> (case word_freq word of None \<Rightarrow> 0 | Some c \<Rightarrow> c) + 1)"

definition word_freq :: "TextSummarizer \<Rightarrow> string \<Rightarrow> (string \<rightharpoonup> int)" where
  "word_freq self text = fold count_word (kept_words self text) Map.empty"

text \<open>
  Lines 105 to 113: the score of a sentence, and the dictionary \<open>sentence_scores\<close>, an
  association list in the order of first insertion, which is the order in which Python
  iterates over a dictionary; an assignment to a key that is present keeps its place.
\<close>

definition add_word :: "(string \<rightharpoonup> int) \<Rightarrow> string \<Rightarrow> int \<Rightarrow> int" where
  "add_word freq word score = (case freq word of None \<Rightarrow> score | Some c \<Rightarrow> score + c)"

definition sentence_score :: "(string \<rightharpoonup> int) \<Rightarrow> string \<Rightarrow> int" where
  "sentence_score freq sentence = fold (add_word freq) (simple_word_tokenize sentence) 0"

definition score_sentence ::
  "(string \<rightharpoonup> int) \<Rightarrow> string \<Rightarrow> (string \<times> int) list \<Rightarrow> (string \<times> int) list" where
  "score_sentence freq sentence scores =
     (let score = sentence_score freq sentence
      in if str_strip sentence \<noteq> [] then AList.update sentence score scores else scores)"

definition sentence_scores :: "TextSummarizer \<Rightarrow> string \<Rightarrow> (string \<times> int) list" where
  "sentence_scores self text =
     fold (score_sentence (word_freq self text)) (simple_sentence_tokenize text) []"

text \<open>Lines 115 to 121: the selection, and the selected sentences in document order.\<close>

definition summary_sentences :: "TextSummarizer \<Rightarrow> string \<Rightarrow> int \<Rightarrow> (string \<times> int) list" where
  "summary_sentences self text num_sentences =
     slice_to num_sentences (sorted_key_reverse snd (sentence_scores self text))"

definition ordered_summary :: "TextSummarizer \<Rightarrow> string \<Rightarrow> int \<Rightarrow> exn + string list" where
  "ordered_summary self text num_sentences =
     (case sorted_key (\<lambda>x. list_index (simple_sentence_tokenize text) (fst x))
             (summary_sentences self text num_sentences) of
        Inl e \<Rightarrow> Inl e
      | Inr sorted_sentences \<Rightarrow> Inr (map fst sorted_sentences))"

text \<open>The body of the \<open>try\<close> (lines 91 to 123): \<open>Inl\<close> is an exception raised in it.\<close>

definition extractive_try :: "TextSummarizer \<Rightarrow> string \<Rightarrow> int \<Rightarrow> exn + string" where
  "extractive_try self text num_sentences =
     (if text = [] \<or> length (str_split text) < 10 then Inr ''Text is too short to summarize.''
      else if int (length (simple_sentence_tokenize text)) \<le> num_sentences then Inr text
      else (case ordered_summary self text num_sentences of
              Inl e \<Rightarrow> Inl e
            | Inr sentences \<Rightarrow> Inr (str_join '' '' sentences)))"

definition extractive_summarize :: "TextSummarizer \<Rightarrow> string \<Rightarrow> int \<Rightarrow> string" where
  "extractive_summarize self text num_sentences =
     (case extractive_try self text num_sentences of
        Inl e \<Rightarrow> ''Error in extractive summarization: '' @ str_exn e
      | Inr summary \<Rightarrow> summary)"

text \<open>\<open>abstractive_summarize\<close> (lines 127 to 153).\<close>

definition prompt :: "string \<Rightarrow> string" where
  "prompt text =
     ''Please provide a concise summary of the following text. '' @ [CHR 0x0A] @
     ''            Focus on the main points and key insights while maintaining clarity and coherence:'' @
     [CHR 0x0A] @ ''            '' @ [CHR 0x0A] @ ''            '' @ text @ [CHR 0x0A] @
     ''            '' @ [CHR 0x0A] @ ''            Summary:''"

definition abstractive_summarize :: "TextSummarizer \<Rightarrow> string \<Rightarrow> string" where
  "abstractive_summarize self text =
     (if text = [] \<or> length (str_split text) < 10 then ''Text is too short to summarize.''
      else (case groq_client self (prompt text) of
              Inl e \<Rightarrow> ''Error in abstractive summarization: '' @ str_exn e
            | Inr content \<Rightarrow> content))"

section \<open>Facts about the string operations\<close>

declare re_split.simps [simp del] str_split.simps [simp del]

lemma isspace_space [simp]: "isspace CHR '' ''"
  by (simp add: isspace_def whitespace_def)

lemma not_isspace_terminator: "is_terminator c \<Longrightarrow> \<not> isspace c"
  by (auto simp: is_terminator_def isspace_def whitespace_def)

lemma isword_not_isspace: "isword c \<Longrightarrow> \<not> isspace c"
  by (auto simp: isspace_def whitespace_def isword_def word_chars_def)

lemma str_split_Nil [simp]: "str_split [] = []"
  by (simp add: str_split.simps [of "[]"])

lemma str_strip_Nil [simp]: "str_strip [] = []"
  by (simp add: str_strip_def)

lemma hd_dropWhile_not: "dropWhile P xs \<noteq> [] \<Longrightarrow> \<not> P (hd (dropWhile P xs))"
  by (rule hd_dropWhile)

lemma str_strip_ends:
  assumes "str_strip s \<noteq> []"
  shows "\<not> isspace (hd (str_strip s))" and "\<not> isspace (last (str_strip s))"
proof -
  let ?d = "dropWhile isspace s"
  let ?r = "dropWhile isspace (rev ?d)"
  from assms have r: "?r \<noteq> []" by (simp add: str_strip_def)
  then have "\<not> isspace (hd ?r)" by (rule hd_dropWhile)
  with r show "\<not> isspace (last (str_strip s))"
    by (simp add: str_strip_def last_rev)
  have d: "?d \<noteq> []"
  proof
    assume e: "?d = []"
    have "?r = []" unfolding e by simp
    with r show False by blast
  qed
  then have nd: "\<not> isspace (hd ?d)" by (rule hd_dropWhile)
  have "rev ?d = takeWhile isspace (rev ?d) @ ?r" by simp
  then have "?d = rev ?r @ rev (takeWhile isspace (rev ?d))"
    by (metis rev_append rev_rev_ident)
  then have "hd ?d = hd (rev ?r)" using r by (metis hd_append2 rev_is_Nil_conv)
  with nd show "\<not> isspace (hd (str_strip s))" by (simp add: str_strip_def)
qed

lemma str_strip_decomp: "\<exists>a b. s = a @ str_strip s @ b \<and> (\<forall>c\<in>set a. isspace c) \<and> (\<forall>c\<in>set b. isspace c)"
proof -
  let ?d = "dropWhile isspace s"
  have 1: "s = takeWhile isspace s @ ?d" by simp
  have "rev ?d = takeWhile isspace (rev ?d) @ dropWhile isspace (rev ?d)" by simp
  then have 2: "?d = str_strip s @ rev (takeWhile isspace (rev ?d))"
    unfolding str_strip_def by (metis rev_append rev_rev_ident)
  have "s = takeWhile isspace s @ str_strip s @ rev (takeWhile isspace (rev ?d))"
    using 1 2 by metis
  moreover have "\<forall>c\<in>set (takeWhile isspace s). isspace c" by (auto dest: set_takeWhileD)
  moreover have "\<forall>c\<in>set (rev (takeWhile isspace (rev ?d))). isspace c" by (auto dest: set_takeWhileD)
  ultimately show ?thesis by blast
qed

lemma set_str_strip: "set (str_strip s) \<subseteq> set s"
proof -
  obtain a b where "s = a @ str_strip s @ b" using str_strip_decomp by blast
  then have "set s = set a \<union> set (str_strip s) \<union> set b" by (metis set_append Un_assoc)
  then show ?thesis by blast
qed

lemma dropWhile_hd_id: "xs \<noteq> [] \<Longrightarrow> \<not> P (hd xs) \<Longrightarrow> dropWhile P xs = xs"
  by (cases xs) auto

lemma str_strip_id: "s \<noteq> [] \<Longrightarrow> \<not> isspace (hd s) \<Longrightarrow> \<not> isspace (last s) \<Longrightarrow> str_strip s = s"
  by (simp add: str_strip_def dropWhile_hd_id hd_rev)

lemma str_strip_idem [simp]: "str_strip (str_strip s) = str_strip s"
  by (cases "str_strip s = []") (auto simp: str_strip_ends str_strip_id)

lemma filter_dropWhile_not: "filter (\<lambda>c. \<not> P c \<and> Q c) (dropWhile P xs) = filter (\<lambda>c. \<not> P c \<and> Q c) xs"
  by (induction xs) auto

lemma filter_str_strip:
  "filter (\<lambda>c. \<not> isspace c \<and> Q c) (str_strip s) = filter (\<lambda>c. \<not> isspace c \<and> Q c) s"
  by (simp add: str_strip_def filter_dropWhile_not flip: rev_filter)

lemma filter_str_strip_nonspace:
  "filter (\<lambda>c. \<not> isspace c) (str_strip s) = filter (\<lambda>c. \<not> isspace c) s"
  using filter_str_strip [of "\<lambda>c. True" s] by simp

lemma double_space_Cons: "double_space (c # cs) = ((c = CHR '' '' \<and> cs \<noteq> [] \<and> hd cs = CHR '' '') \<or> double_space cs)"
  by (cases cs) auto

lemma double_space_append:
  "double_space (xs @ ys) \<longleftrightarrow>
     double_space xs \<or> double_space ys \<or> (xs \<noteq> [] \<and> ys \<noteq> [] \<and> last xs = CHR '' '' \<and> hd ys = CHR '' '')"
proof (induction xs)
  case Nil
  then show ?case by simp
next
  case (Cons x xs)
  show ?case
    by (cases xs; cases ys) (use Cons in \<open>auto simp: double_space_Cons\<close>)
qed

lemma double_space_str_strip: "double_space (str_strip s) \<Longrightarrow> double_space s"
proof -
  assume a: "double_space (str_strip s)"
  obtain x y where "s = x @ str_strip s @ y" using str_strip_decomp by blast
  then have "double_space s = double_space (x @ str_strip s @ y)" by simp
  with a show ?thesis by (simp add: double_space_append)
qed

lemma collapse_ws_chars: "c \<in> set (collapse_ws t) \<Longrightarrow> c = CHR '' '' \<or> (c \<in> set t \<and> \<not> isspace c)"
  by (induction t rule: collapse_ws.induct) (auto split: if_splits dest: set_dropWhileD)

lemma hd_collapse_ws: "t \<noteq> [] \<Longrightarrow> \<not> isspace (hd t) \<Longrightarrow> collapse_ws t \<noteq> [] \<and> hd (collapse_ws t) = hd t"
  by (cases t) auto

lemma not_double_space_collapse_ws: "\<not> double_space (collapse_ws t)"
proof (induction t rule: collapse_ws.induct)
  case 1
  show ?case by simp
next
  case (2 c cs)
  show ?case
  proof (cases "isspace c")
    case True
    let ?x = "dropWhile isspace cs"
    have ih: "\<not> double_space (collapse_ws ?x)" using 2(1) True by simp
    have "collapse_ws ?x \<noteq> [] \<Longrightarrow> hd (collapse_ws ?x) \<noteq> CHR '' ''"
    proof (cases "?x = []")
      case True
      then show "collapse_ws ?x \<noteq> [] \<Longrightarrow> hd (collapse_ws ?x) \<noteq> CHR '' ''" by simp
    next
      case False
      then have "\<not> isspace (hd ?x)" by (rule hd_dropWhile)
      with False hd_collapse_ws [of ?x] show "hd (collapse_ws ?x) \<noteq> CHR '' ''"
        by auto
    qed
    with ih True show ?thesis by (auto simp: double_space_Cons)
  next
    case False
    then have "c \<noteq> CHR '' ''" by auto
    with 2(2) False show ?thesis by (simp add: double_space_Cons)
  qed
qed

lemma filter_collapse_ws:
  "filter (\<lambda>c. \<not> isspace c \<and> Q c) (collapse_ws t) = filter (\<lambda>c. \<not> isspace c \<and> Q c) t"
  by (induction t rule: collapse_ws.induct) (simp_all add: filter_dropWhile_not)

lemma dropWhile_append_not:
  "\<not> P c \<Longrightarrow> dropWhile P (xs @ c # ys) = dropWhile P xs @ c # ys"
  by (induction xs) auto

lemma collapse_ws_append:
  "\<not> isspace c \<Longrightarrow> collapse_ws (a @ c # b) = collapse_ws a @ c # collapse_ws b"
  by (induction a rule: collapse_ws.induct) (simp_all add: dropWhile_append_not)

lemma collapse_ws_allowed:
  assumes "\<forall>c\<in>set t. isword c \<or> isspace c \<or> c = CHR ''.''"
  shows "filter (\<lambda>c. isword c \<or> isspace c \<or> c = CHR ''.'') (collapse_ws t) = collapse_ws t"
proof -
  have "\<forall>c\<in>set (collapse_ws t). isword c \<or> isspace c \<or> c = CHR ''.''"
    using assms collapse_ws_chars isspace_space by blast
  then show ?thesis by simp
qed

subsection \<open>Words joined by spaces\<close>

lemma str_strip_pad:
  assumes "\<forall>c\<in>set a. isspace c" and "\<forall>c\<in>set b. isspace c"
  shows "str_strip (a @ x @ b) = str_strip x"
proof -
  have lead: "dropWhile isspace (a @ x @ b) = dropWhile isspace (x @ b)"
    using assms(1) by (simp add: dropWhile_append2)
  have trail: "\<And>y. dropWhile isspace (rev b @ y) = dropWhile isspace y"
    using assms(2) by (simp add: dropWhile_append)
  show ?thesis
  proof (cases "\<forall>c\<in>set x. isspace c")
    case True
    then have "dropWhile isspace (x @ b) = []" and "dropWhile isspace x = []"
      using assms(2) by simp_all
    then show ?thesis by (simp only: str_strip_def lead)
  next
    case False
    then obtain y where "y \<in> set x" and "\<not> isspace y" by blast
    then have "dropWhile isspace (x @ b) = dropWhile isspace x @ b"
      by (rule dropWhile_append1)
    then show ?thesis by (simp add: str_strip_def lead trail)
  qed
qed

lemma str_join_Cons:
  "str_join sep (x # xs) = (if xs = [] then x else x @ sep @ str_join sep xs)"
  by (cases xs) simp_all

lemma str_join_snoc:
  "str_join sep (xs @ [x]) = (if xs = [] then x else str_join sep xs @ sep @ x)"
  by (induction xs) (auto simp: str_join_Cons)

lemma rev_str_join: "rev (str_join sep ws) = str_join (rev sep) (map rev (rev ws))"
  by (induction ws) (auto simp: str_join_Cons str_join_snoc)

lemma filter_str_join:
  "filter P (str_join sep ws) = str_join (filter P sep) (map (filter P) ws)"
  by (induction ws) (auto simp: str_join_Cons)

lemma str_split_none: 
  assumes "dropWhile isspace s = []"
  shows "str_split s = []"
  by (subst str_split.simps) (simp only: assms list.case)

lemma str_split_some:
  assumes "dropWhile isspace s = c # cs"
  shows "str_split s = (c # takeWhile (\<lambda>x. \<not> isspace x) cs) # str_split (dropWhile (\<lambda>x. \<not> isspace x) cs)"
  by (subst str_split.simps) (simp only: assms list.case)

lemma str_split_words:
  "w \<in> set (str_split s) \<Longrightarrow> w \<noteq> [] \<and> (\<forall>c\<in>set w. \<not> isspace c)"
proof (induction s rule: str_split.induct)
  case (1 s)
  show ?case
  proof (cases "dropWhile isspace s")
    case Nil
    with 1(2) show ?thesis by (simp add: str_split_none)
  next
    case (Cons c cs)
    have "dropWhile isspace s \<noteq> []" using Cons by simp
    then have "\<not> isspace (hd (dropWhile isspace s))" by (rule hd_dropWhile)
    then have c: "\<not> isspace c" using Cons by simp
    from 1(2) Cons have "w = c # takeWhile (\<lambda>x. \<not> isspace x) cs
        \<or> w \<in> set (str_split (dropWhile (\<lambda>x. \<not> isspace x) cs))"
      by (simp add: str_split_some)
    then show ?thesis
    proof
      assume "w = c # takeWhile (\<lambda>x. \<not> isspace x) cs"
      then show ?thesis using c by (auto dest: set_takeWhileD)
    next
      assume "w \<in> set (str_split (dropWhile (\<lambda>x. \<not> isspace x) cs))"
      then show ?thesis using 1(1) [OF Cons] by blast
    qed
  qed
qed

lemma collapse_ws_nonspace_prefix:
  "\<forall>c\<in>set w. \<not> isspace c \<Longrightarrow> collapse_ws (w @ r) = w @ collapse_ws r"
  by (induction w) auto

lemma collapse_ws_lead:
  "collapse_ws t = (if t \<noteq> [] \<and> isspace (hd t) then '' '' else []) @ collapse_ws (dropWhile isspace t)"
  by (cases t) auto

lemma collapse_ws_words:
  "collapse_ws (dropWhile isspace t)
     = str_join '' '' (str_split t)
       @ (if dropWhile isspace t \<noteq> [] \<and> isspace (last t) then '' '' else [])"
proof (induction t rule: str_split.induct)
  case (1 s)
  show ?case
  proof (cases "dropWhile isspace s")
    case Nil
    show ?thesis unfolding Nil by (simp add: str_split_none [OF Nil])
  next
    case (Cons c cs)
    let ?w = "c # takeWhile (\<lambda>x. \<not> isspace x) cs"
    let ?rest = "dropWhile (\<lambda>x. \<not> isspace x) cs"
    have dne: "dropWhile isspace s \<noteq> []" using Cons by simp
    then have "\<not> isspace (hd (dropWhile isspace s))" by (rule hd_dropWhile)
    then have c: "\<not> isspace c" using Cons by simp
    have w: "\<forall>x\<in>set ?w. \<not> isspace x" using c by (auto dest: set_takeWhileD)
    have d: "dropWhile isspace s = ?w @ ?rest" using Cons by simp
    have split: "str_split s = ?w # str_split ?rest" using Cons by (rule str_split_some)
    have lasts: "last s = last (dropWhile isspace s)"
    proof -
      have "s = takeWhile isspace s @ dropWhile isspace s" by simp
      then show ?thesis using dne by (metis last_appendR)
    qed
    have col: "collapse_ws (dropWhile isspace s) = ?w @ collapse_ws ?rest"
      unfolding d using w by (rule collapse_ws_nonspace_prefix)
    show ?thesis
    proof (cases "?rest = []")
      case True
      have a: "collapse_ws (dropWhile isspace s) = ?w"
        using col unfolding True by simp
      have b: "str_split s = [?w]"
        using split unfolding True by simp
      have "last (?w @ ?rest) = last ?w" unfolding True by simp
      then have "last s = last ?w" using lasts d by simp
      moreover have "\<not> isspace (last ?w)" using w by (metis last_in_set list.discI)
      ultimately have c: "\<not> isspace (last s)" by simp
      show ?thesis unfolding a b using c by simp
    next
      case False
      then have "\<not> \<not> isspace (hd ?rest)" by (rule hd_dropWhile)
      then have hr: "isspace (hd ?rest)" by simp
      have colr: "collapse_ws ?rest = '' '' @ collapse_ws (dropWhile isspace ?rest)"
        using collapse_ws_lead [of ?rest] False hr by simp
      have ih: "collapse_ws (dropWhile isspace ?rest)
          = str_join '' '' (str_split ?rest)
            @ (if dropWhile isspace ?rest \<noteq> [] \<and> isspace (last ?rest) then '' '' else [])"
        using 1 [OF Cons] .
      have "last (?w @ ?rest) = last ?rest" using False by (rule last_appendR)
      then have lr: "last s = last ?rest" using lasts d by simp
      show ?thesis
      proof (cases "dropWhile isspace ?rest = []")
        case True
        have blank: "str_split ?rest = []" using True by (rule str_split_none)
        have "\<forall>x\<in>set ?rest. isspace x"
          using True by (simp only: dropWhile_eq_Nil_conv)
        then have ending: "isspace (last ?rest)" using False by (metis last_in_set)
        have a: "collapse_ws (dropWhile isspace s) = ?w @ '' ''"
          unfolding col colr ih blank True by simp
        have b: "str_split s = [?w]" unfolding split blank ..
        show ?thesis unfolding a b lr using ending dne by simp
      next
        case nonblank: False
        then obtain e es where "dropWhile isspace ?rest = e # es"
          by (cases "dropWhile isspace ?rest") auto
        then have "str_split ?rest
            = (e # takeWhile (\<lambda>x. \<not> isspace x) es) # str_split (dropWhile (\<lambda>x. \<not> isspace x) es)"
          by (rule str_split_some)
        then have ne: "str_split ?rest \<noteq> []"
          by simp
        have a: "collapse_ws (dropWhile isspace s)
            = ?w @ '' '' @ str_join '' '' (str_split ?rest)
              @ (if isspace (last ?rest) then '' '' else [])"
          unfolding col colr ih using nonblank by simp
        have b: "str_join '' '' (str_split s) = ?w @ '' '' @ str_join '' '' (str_split ?rest)"
          unfolding split using ne by (simp add: str_join_Cons)
        show ?thesis unfolding a b lr using dne by simp
      qed
    qed
  qed
qed

lemma lstrip_str_join:
  assumes "\<forall>w\<in>set ws. \<forall>c\<in>set w. \<not> isspace c"
  shows "dropWhile isspace (str_join '' '' ws) = str_join '' '' (dropWhile (\<lambda>w. w = []) ws)"
  using assms
proof (induction ws)
  case Nil
  show ?case by simp
next
  case (Cons x xs)
  show ?case
  proof (cases "x = []")
    case True
    with Cons show ?thesis by (simp add: str_join_Cons)
  next
    case False
    with Cons.prems have "\<not> isspace (hd x)" by simp
    with False have "\<And>r. dropWhile isspace (x @ r) = x @ r"
      by (cases x) simp_all
    from this [of "[]"] this False show ?thesis by (simp add: str_join_Cons)
  qed
qed

lemma dropWhile_empty_map_rev:
  "dropWhile (\<lambda>w. w = []) (map rev ws) = map rev (dropWhile (\<lambda>w. w = []) ws)"
  by (induction ws) auto

lemma str_strip_str_join:
  assumes "\<forall>w\<in>set ws. \<forall>c\<in>set w. \<not> isspace c"
  shows "str_strip (str_join '' '' ws) = str_join '' '' (trim_empty ws)"
proof -
  let ?ws1 = "dropWhile (\<lambda>w. w = []) ws"
  have free1: "\<forall>w\<in>set (map rev (rev ?ws1)). \<forall>c\<in>set w. \<not> isspace c"
    using assms by (auto dest: set_dropWhileD)
  have "str_strip (str_join '' '' ws) = rev (dropWhile isspace (rev (str_join '' '' ?ws1)))"
    by (simp only: str_strip_def lstrip_str_join [OF assms])
  also have "rev (str_join '' '' ?ws1) = str_join '' '' (map rev (rev ?ws1))"
    by (simp add: rev_str_join)
  also have "dropWhile isspace (str_join '' '' (map rev (rev ?ws1)))
      = str_join '' '' (dropWhile (\<lambda>w. w = []) (map rev (rev ?ws1)))"
    using free1 by (rule lstrip_str_join)
  also have "dropWhile (\<lambda>w. w = []) (map rev (rev ?ws1))
      = map rev (dropWhile (\<lambda>w. w = []) (rev ?ws1))"
    by (rule dropWhile_empty_map_rev)
  also have "rev (str_join '' '' (map rev (dropWhile (\<lambda>w. w = []) (rev ?ws1))))
      = str_join '' '' (trim_empty ws)"
    by (simp add: rev_str_join trim_empty_def rev_map comp_def)
  finally show ?thesis .
qed

lemma trim_empty_ends:
  assumes "trim_empty ws \<noteq> []"
  shows "hd (trim_empty ws) \<noteq> []" and "last (trim_empty ws) \<noteq> []"
proof -
  let ?d = "dropWhile (\<lambda>w. w = []) ws"
  let ?r = "dropWhile (\<lambda>w. w = []) (rev ?d)"
  from assms have r: "?r \<noteq> []" by (simp only: trim_empty_def rev_is_Nil_conv not_False_eq_True)
  then have "\<not> hd ?r = []" by (rule hd_dropWhile)
  then show "last (trim_empty ws) \<noteq> []"
    using r by (simp only: trim_empty_def last_rev not_False_eq_True)
  have d: "?d \<noteq> []"
  proof
    assume e: "?d = []"
    have "?r = []" unfolding e by simp
    with r show False by blast
  qed
  then have nd: "\<not> hd ?d = []" by (rule hd_dropWhile)
  have "rev ?d = takeWhile (\<lambda>w. w = []) (rev ?d) @ ?r" by simp
  then have "?d = rev ?r @ rev (takeWhile (\<lambda>w. w = []) (rev ?d))"
    by (metis rev_append rev_rev_ident)
  then have "hd ?d = hd (rev ?r)" using r by (metis hd_append2 rev_is_Nil_conv)
  then have "hd (trim_empty ws) = hd ?d" by (simp only: trim_empty_def)
  with nd show "hd (trim_empty ws) \<noteq> []" by metis
qed

lemma set_trim_empty: "set (trim_empty ws) \<subseteq> set ws"
proof
  fix x
  assume "x \<in> set (trim_empty ws)"
  then have "x \<in> set (dropWhile (\<lambda>w. w = []) (rev (dropWhile (\<lambda>w. w = []) ws)))"
    by (simp only: trim_empty_def set_rev)
  then have "x \<in> set (rev (dropWhile (\<lambda>w. w = []) ws))"
    by (rule set_dropWhileD)
  then have "x \<in> set (dropWhile (\<lambda>w. w = []) ws)"
    by (simp only: set_rev)
  then show "x \<in> set ws"
    by (rule set_dropWhileD)
qed

lemma trim_empty_id: "[] \<notin> set ws \<Longrightarrow> trim_empty ws = ws"
proof -
  assume a: "[] \<notin> set ws"
  then have 1: "dropWhile (\<lambda>w. w = []) ws = ws"
    by (cases ws) auto
  from a have "[] \<notin> set (rev ws)" by simp
  then have 2: "dropWhile (\<lambda>w. w = []) (rev ws) = rev ws"
    by (cases "rev ws") auto
  show ?thesis by (simp only: trim_empty_def 1 2 rev_rev_ident)
qed

lemma str_strip_collapse_ws: "str_strip (collapse_ws t) = str_join '' '' (str_split t)"
proof -
  let ?lead = "if t \<noteq> [] \<and> isspace (hd t) then '' '' else []"
  let ?trail = "if dropWhile isspace t \<noteq> [] \<and> isspace (last t) then '' '' else []"
  have free: "\<forall>w\<in>set (str_split t). \<forall>c\<in>set w. \<not> isspace c"
    using str_split_words by blast
  have nonempty: "[] \<notin> set (str_split t)"
    using str_split_words by blast
  have "collapse_ws t = ?lead @ collapse_ws (dropWhile isspace t)"
    by (rule collapse_ws_lead)
  also have "collapse_ws (dropWhile isspace t) = str_join '' '' (str_split t) @ ?trail"
    by (rule collapse_ws_words)
  finally have eq: "collapse_ws t = ?lead @ str_join '' '' (str_split t) @ ?trail" .
  have lead: "\<forall>c\<in>set ?lead. isspace c"
    by (cases "t \<noteq> [] \<and> isspace (hd t)") simp_all
  have trail: "\<forall>c\<in>set ?trail. isspace c"
    by (cases "dropWhile isspace t \<noteq> [] \<and> isspace (last t)") simp_all
  have "str_strip (collapse_ws t) = str_strip (?lead @ str_join '' '' (str_split t) @ ?trail)"
    using eq by (rule arg_cong)
  also have "\<dots> = str_strip (str_join '' '' (str_split t))"
    using lead trail by (rule str_strip_pad)
  also have "\<dots> = str_join '' '' (trim_empty (str_split t))"
    using free by (rule str_strip_str_join)
  also have "trim_empty (str_split t) = str_split t"
    using nonempty by (rule trim_empty_id)
  finally show ?thesis .
qed

lemma preprocess_text_words:
  "preprocess_text t
     = str_join '' '' (trim_empty (map (filter (\<lambda>c. isword c \<or> c = CHR ''.'')) (str_split t)))"
proof -
  let ?keep = "\<lambda>c. isword c \<or> isspace c \<or> c = CHR ''.''"
  let ?kn = "\<lambda>c. isword c \<or> c = CHR ''.''"
  obtain a b where dec: "collapse_ws t = a @ str_strip (collapse_ws t) @ b"
    and a: "\<forall>c\<in>set a. isspace c" and b: "\<forall>c\<in>set b. isspace c"
    using str_strip_decomp by blast
  have fa: "filter ?keep a = a" and fb: "filter ?keep b = b"
    using a b by simp_all
  have "filter ?keep (collapse_ws t) = filter ?keep (a @ str_strip (collapse_ws t) @ b)"
    using dec by (rule arg_cong)
  also have "\<dots> = a @ filter ?keep (str_join '' '' (str_split t)) @ b"
    by (simp only: filter_append fa fb str_strip_collapse_ws)
  finally have "str_strip (filter ?keep (collapse_ws t))
      = str_strip (filter ?keep (str_join '' '' (str_split t)))"
    using a b by (simp only: str_strip_pad)
  also have "filter ?keep (str_join '' '' (str_split t))
      = str_join '' '' (map (filter ?keep) (str_split t))"
    by (simp add: filter_str_join)
  also have "map (filter ?keep) (str_split t) = map (filter ?kn) (str_split t)"
  proof (rule map_cong [OF refl], rule filter_cong [OF refl])
    fix w c
    assume "w \<in> set (str_split t)" and "c \<in> set w"
    then have "\<not> isspace c" using str_split_words by blast
    then show "?keep c = ?kn c" by simp
  qed
  also have "str_strip (str_join '' '' (map (filter ?kn) (str_split t)))
      = str_join '' '' (trim_empty (map (filter ?kn) (str_split t)))"
  proof (rule str_strip_str_join, intro ballI)
    fix w c
    assume "w \<in> set (map (filter ?kn) (str_split t))" and c: "c \<in> set w"
    then obtain v where "v \<in> set (str_split t)" and "w = filter ?kn v" by auto
    with c have "c \<in> set v" by simp
    with \<open>v \<in> set (str_split t)\<close> show "\<not> isspace c" using str_split_words by blast
  qed
  finally show ?thesis by (simp add: preprocess_text_def)
qed

lemma no_space_no_double: "\<forall>c\<in>set w. \<not> isspace c \<Longrightarrow> \<not> double_space w"
proof (induction w)
  case Nil
  show ?case by simp
next
  case (Cons c cs)
  then have "c \<noteq> CHR '' ''" by auto
  with Cons show ?case by (simp add: double_space_Cons)
qed

lemma no_space_ends:
  assumes "w \<noteq> []" and "\<forall>c\<in>set w. \<not> isspace c"
  shows "hd w \<noteq> CHR '' ''" and "last w \<noteq> CHR '' ''"
proof -
  have "hd w \<in> set w" and "last w \<in> set w" using assms(1) by simp_all
  with assms(2) have "\<not> isspace (hd w)" and "\<not> isspace (last w)" by blast+
  then show "hd w \<noteq> CHR '' ''" and "last w \<noteq> CHR '' ''" by auto
qed

lemma double_space_space_join:
  assumes "ws \<noteq> []" and "last ws \<noteq> []"
    and "\<forall>w\<in>set ws. \<forall>c\<in>set w. \<not> isspace c"
  shows "double_space (CHR '' '' # str_join '' '' ws) \<longleftrightarrow> [] \<in> set ws"
  using assms
proof (induction ws)
  case Nil
  then show ?case by simp
next
  case (Cons x xs)
  have free: "\<forall>c\<in>set x. \<not> isspace c" using Cons.prems(3) by simp
  show ?case
  proof (cases "xs = []")
    case True
    with Cons.prems(2) have x: "x \<noteq> []" by simp
    have "\<not> double_space x" using free by (rule no_space_no_double)
    moreover have "hd x \<noteq> CHR '' ''" using x free by (rule no_space_ends)
    ultimately show ?thesis using True x by (simp add: double_space_Cons)
  next
    case False
    have ih: "double_space (CHR '' '' # str_join '' '' xs) \<longleftrightarrow> [] \<in> set xs"
      using Cons.IH False Cons.prems(2,3) by simp
    have join: "str_join '' '' (x # xs) = x @ CHR '' '' # str_join '' '' xs"
      using False by (simp add: str_join_Cons)
    show ?thesis
    proof (cases "x = []")
      case True
      show ?thesis unfolding join using True by simp
    next
      case nonempty: False
      have "\<not> double_space x" using free by (rule no_space_no_double)
      moreover have "hd x \<noteq> CHR '' ''" and "last x \<noteq> CHR '' ''"
        using nonempty free by (rule no_space_ends)+
      ultimately have "double_space ((CHR '' '' # x) @ (CHR '' '' # str_join '' '' xs))
          \<longleftrightarrow> double_space (CHR '' '' # str_join '' '' xs)"
        using nonempty by (simp only: double_space_append) (simp add: double_space_Cons)
      then show ?thesis using ih nonempty by (simp add: join)
    qed
  qed
qed

lemma double_space_join_trimmed:
  assumes "ws = [] \<or> (hd ws \<noteq> [] \<and> last ws \<noteq> [])"
    and "\<forall>w\<in>set ws. \<forall>c\<in>set w. \<not> isspace c"
  shows "double_space (str_join '' '' ws) \<longleftrightarrow> [] \<in> set ws"
proof (cases ws)
  case Nil
  then show ?thesis by simp
next
  case (Cons x xs)
  with assms(1) have x: "x \<noteq> []" and l: "last (x # xs) \<noteq> []" by simp_all
  have free: "\<forall>c\<in>set x. \<not> isspace c" using assms(2) Cons by simp
  have nd: "\<not> double_space x" using free by (rule no_space_no_double)
  show ?thesis
  proof (cases "xs = []")
    case True
    with nd x Cons show ?thesis by simp
  next
    case False
    have "last xs \<noteq> []" using l False by simp
    moreover have "\<forall>w\<in>set xs. \<forall>c\<in>set w. \<not> isspace c" using assms(2) Cons by simp
    ultimately have d1: "double_space (CHR '' '' # str_join '' '' xs) \<longleftrightarrow> [] \<in> set xs"
      using False by (intro double_space_space_join)
    have join: "str_join '' '' (x # xs) = x @ CHR '' '' # str_join '' '' xs"
      using False by (simp add: str_join_Cons)
    have "last x \<noteq> CHR '' ''" using x free by (rule no_space_ends)
    then have "double_space (x @ CHR '' '' # str_join '' '' xs)
        \<longleftrightarrow> double_space (CHR '' '' # str_join '' '' xs)"
      using nd x by (simp only: double_space_append) simp
    then show ?thesis using d1 x Cons by (simp add: join)
  qed
qed

lemma preprocess_text_double_space:
  "double_space (preprocess_text t)
     \<longleftrightarrow> [] \<in> set (trim_empty (map (filter (\<lambda>c. isword c \<or> c = CHR ''.'')) (str_split t)))"
proof -
  let ?ws = "map (filter (\<lambda>c. isword c \<or> c = CHR ''.'')) (str_split t)"
  have ends: "trim_empty ?ws = [] \<or> (hd (trim_empty ?ws) \<noteq> [] \<and> last (trim_empty ?ws) \<noteq> [])"
    using trim_empty_ends [of ?ws] by blast
  have free: "\<forall>w\<in>set (trim_empty ?ws). \<forall>c\<in>set w. \<not> isspace c"
  proof (intro ballI)
    fix w c
    assume "w \<in> set (trim_empty ?ws)" and c: "c \<in> set w"
    then have "w \<in> set ?ws" using set_trim_empty by blast
    then obtain v where v: "v \<in> set (str_split t)" and "w = filter (\<lambda>c. isword c \<or> c = CHR ''.'') v"
      by auto
    with c have "c \<in> set v" by simp
    with v show "\<not> isspace c" using str_split_words by blast
  qed
  show ?thesis
    unfolding preprocess_text_words using ends free by (rule double_space_join_trimmed)
qed

subsection \<open>Splitting into sentences\<close>

lemma re_split_none:
  assumes "dropWhile (\<lambda>x. \<not> p x) s = []"
  shows "re_split p s = [s]"
  by (subst re_split.simps) (simp only: assms list.case)

lemma re_split_some:
  assumes "dropWhile (\<lambda>x. \<not> p x) s = c # rest"
  shows "re_split p s = takeWhile (\<lambda>x. \<not> p x) s # re_split p (dropWhile p rest)"
  by (subst re_split.simps) (simp only: assms list.case)

lemma re_split_no_match: "\<forall>c\<in>set s. \<not> p c \<Longrightarrow> re_split p s = [s]"
  by (rule re_split_none) simp

lemma re_split_pieces: "f \<in> set (re_split p s) \<Longrightarrow> (\<forall>c\<in>set f. \<not> p c) \<and> (\<exists>a b. s = a @ f @ b)"
proof (induction p s rule: re_split.induct)
  case (1 p s)
  show ?case
  proof (cases "dropWhile (\<lambda>x. \<not> p x) s")
    case Nil
    with 1(2) have "f = s" by (simp add: re_split_none)
    moreover from Nil have "\<forall>c\<in>set s. \<not> p c" by simp
    moreover have "s = [] @ s @ []" by simp
    ultimately show ?thesis by blast
  next
    case (Cons c rest)
    let ?tw = "takeWhile (\<lambda>x. \<not> p x) s"
    have s: "s = ?tw @ c # rest" using Cons by (metis takeWhile_dropWhile_id)
    from 1(2) Cons have "f = ?tw \<or> f \<in> set (re_split p (dropWhile p rest))"
      by (simp add: re_split_some)
    then show ?thesis
    proof
      assume f: "f = ?tw"
      have "\<forall>c\<in>set ?tw. \<not> p c" by (auto dest: set_takeWhileD)
      moreover have "s = [] @ ?tw @ (c # rest)" using s by simp
      ultimately show ?thesis using f by blast
    next
      assume "f \<in> set (re_split p (dropWhile p rest))"
      with 1(1) [OF Cons] obtain a b where
        np: "\<forall>c\<in>set f. \<not> p c" and d: "dropWhile p rest = a @ f @ b" by blast
      have "rest = takeWhile p rest @ dropWhile p rest" by simp
      with d s have "s = (?tw @ c # takeWhile p rest @ a) @ f @ b" by (metis append.assoc append_Cons)
      with np show ?thesis by blast
    qed
  qed
qed

lemma re_split_dropWhile:
  "filter (\<lambda>s. str_strip s \<noteq> []) (re_split p (dropWhile p b))
     = filter (\<lambda>s. str_strip s \<noteq> []) (re_split p b)"
proof (cases b)
  case Nil
  then show ?thesis by simp
next
  case (Cons x xs)
  show ?thesis
  proof (cases "p x")
    case True
    with Cons have "dropWhile (\<lambda>x. \<not> p x) b = x # xs" by simp
    then have "re_split p b = takeWhile (\<lambda>x. \<not> p x) b # re_split p (dropWhile p xs)"
      by (rule re_split_some)
    with True Cons show ?thesis by simp
  next
    case False
    with Cons show ?thesis by simp
  qed
qed

lemma dropWhile_dropWhile_append:
  "dropWhile p (dropWhile p xs @ ys) = dropWhile p (xs @ ys)"
  by (induction xs) auto

lemma re_split_append:
  assumes "p t"
  shows "filter (\<lambda>s. str_strip s \<noteq> []) (re_split p (a @ t # b))
     = filter (\<lambda>s. str_strip s \<noteq> []) (re_split p a) @ filter (\<lambda>s. str_strip s \<noteq> []) (re_split p b)"
  using assms
proof (induction p a rule: re_split.induct)
  case (1 p a)
  note pt = \<open>p t\<close>
  let ?nb = "filter (\<lambda>s. str_strip s \<noteq> [])"
  show ?case
  proof (cases "dropWhile (\<lambda>x. \<not> p x) a")
    case Nil
    then have none: "\<forall>c\<in>set a. \<not> p c" by simp
    then have "dropWhile (\<lambda>x. \<not> p x) (a @ t # b) = t # b"
      using pt by (simp add: dropWhile_append2)
    then have "re_split p (a @ t # b)
        = takeWhile (\<lambda>x. \<not> p x) (a @ t # b) # re_split p (dropWhile p b)"
      by (rule re_split_some)
    moreover have "takeWhile (\<lambda>x. \<not> p x) (a @ t # b) = a"
      using none pt by (simp add: takeWhile_append2)
    moreover have "re_split p a = [a]" using Nil by (rule re_split_none)
    ultimately show ?thesis by (simp add: re_split_dropWhile)
  next
    case (Cons c rest)
    let ?tw = "takeWhile (\<lambda>x. \<not> p x) a"
    have "dropWhile (\<lambda>x. \<not> p x) a \<noteq> []" using Cons by simp
    then have "\<not> \<not> p (hd (dropWhile (\<lambda>x. \<not> p x) a))" by (rule hd_dropWhile)
    then have pc: "p c" using Cons by simp
    have cin: "c \<in> set a" using Cons by (metis list.set_intros(1) set_dropWhileD)
    have dw: "dropWhile (\<lambda>x. \<not> p x) (a @ t # b) = c # (rest @ t # b)"
      using dropWhile_append1 [of c a "\<lambda>x. \<not> p x" "t # b"] cin pc Cons by simp
    have tw: "takeWhile (\<lambda>x. \<not> p x) (a @ t # b) = ?tw"
      using takeWhile_append1 [of c a "\<lambda>x. \<not> p x" "t # b"] cin pc by simp
    have 1: "re_split p (a @ t # b) = ?tw # re_split p (dropWhile p (rest @ t # b))"
      using re_split_some [OF dw] tw by simp
    have 2: "re_split p a = ?tw # re_split p (dropWhile p rest)"
      using Cons by (rule re_split_some)
    have "?nb (re_split p (dropWhile p (rest @ t # b)))
        = ?nb (re_split p (dropWhile p (dropWhile p rest @ t # b)))"
      by (simp only: dropWhile_dropWhile_append)
    also have "\<dots> = ?nb (re_split p (dropWhile p rest @ t # b))"
      by (rule re_split_dropWhile)
    also have "\<dots> = ?nb (re_split p (dropWhile p rest)) @ ?nb (re_split p b)"
      using "1.IH" [OF Cons pt] .
    finally show ?thesis using 1 2 by simp
  qed
qed

lemma simple_sentence_tokenize_Nil [simp]: "simple_sentence_tokenize [] = []"
  by (simp add: simple_sentence_tokenize_def re_split_none)

lemma collapse_ws_no_terminator:
  assumes "\<forall>c\<in>set text. \<not> is_terminator c"
  shows "\<forall>c\<in>set (collapse_ws text). \<not> is_terminator c"
proof
  fix c
  assume "c \<in> set (collapse_ws text)"
  then have "c = CHR '' '' \<or> c \<in> set text" using collapse_ws_chars by blast
  then show "\<not> is_terminator c" using assms by (auto simp: is_terminator_def)
qed

lemma simple_sentence_tokenize_append:
  assumes "is_terminator t"
  shows "simple_sentence_tokenize (a @ t # b)
     = simple_sentence_tokenize a @ simple_sentence_tokenize b"
proof -
  have "\<not> isspace t" using assms by (rule not_isspace_terminator)
  then have "collapse_ws (a @ t # b) = collapse_ws a @ t # collapse_ws b"
    by (rule collapse_ws_append)
  then show ?thesis
    using re_split_append [where p = is_terminator and t = t, OF assms]
    by (simp add: simple_sentence_tokenize_def)
qed

lemma simple_sentence_tokenize_single:
  assumes "\<forall>c\<in>set text. \<not> is_terminator c"
  shows "simple_sentence_tokenize text
     = (if str_strip (collapse_ws text) = [] then [] else [str_strip (collapse_ws text)])"
proof -
  have "re_split is_terminator (collapse_ws text) = [collapse_ws text]"
    using collapse_ws_no_terminator [OF assms] by (rule re_split_no_match)
  then show ?thesis by (simp add: simple_sentence_tokenize_def)
qed

lemma sentence_properties:
  assumes "s \<in> set (simple_sentence_tokenize text)"
  shows "s \<noteq> []" and "\<forall>c\<in>set s. \<not> is_terminator c \<and> (isspace c \<longrightarrow> c = CHR '' '')"
    and "\<not> isspace (hd s)" and "\<not> isspace (last s)" and "\<not> double_space s"
    and "str_strip s = s"
proof -
  from assms obtain f where f: "f \<in> set (re_split is_terminator (collapse_ws text))"
    and ne: "str_strip f \<noteq> []" and s: "s = str_strip f"
    by (auto simp: simple_sentence_tokenize_def)
  from re_split_pieces [OF f] obtain a b where
    nt: "\<forall>c\<in>set f. \<not> is_terminator c" and d: "collapse_ws text = a @ f @ b" by blast
  show "s \<noteq> []" using ne s by simp
  show "\<not> isspace (hd s)" "\<not> isspace (last s)" using str_strip_ends [OF ne] s by simp_all
  show "str_strip s = s" using s by simp
  have sub: "set s \<subseteq> set f" using s set_str_strip by simp
  have "set f \<subseteq> set (collapse_ws text)" using d by auto
  then have "\<forall>c\<in>set f. isspace c \<longrightarrow> c = CHR '' ''" using collapse_ws_chars by blast
  with nt sub show "\<forall>c\<in>set s. \<not> is_terminator c \<and> (isspace c \<longrightarrow> c = CHR '' '')" by blast
  have "\<not> double_space (a @ f @ b)" using not_double_space_collapse_ws [of "text"] d by simp
  then have "\<not> double_space f" by (simp add: double_space_append)
  then show "\<not> double_space s" using s double_space_str_strip by blast
qed

subsection \<open>Counting words\<close>

lemma fold_count_word:
  "fold count_word ws m w =
     (if w \<in> set ws then Some ((case m w of None \<Rightarrow> 0 | Some c \<Rightarrow> c) + int (count_list ws w))
      else m w)"
proof (induction ws arbitrary: m)
  case Nil
  show ?case by simp
next
  case (Cons x xs)
  show ?case
    by (simp add: Cons.IH) (auto simp: count_word_def count_list_0_iff)
qed

lemma word_freq_eq:
  "word_freq self text w =
     (if w \<in> set (kept_words self text) then Some (int (count_list (kept_words self text) w))
      else None)"
  by (simp add: word_freq_def fold_count_word)

lemma dom_word_freq: "dom (word_freq self text) = set (kept_words self text)"
  by (auto simp: word_freq_eq dom_def)

lemma word_freq_nonneg: "word_freq self text w = Some c \<Longrightarrow> 0 < c"
  using count_list_0_iff [of "kept_words self text" w]
  by (auto simp: word_freq_eq split: if_splits)

subsection \<open>Scoring sentences\<close>

lemma fold_add_word:
  "fold (add_word freq) ws a = a + sum_list (map (\<lambda>w. case freq w of None \<Rightarrow> 0 | Some c \<Rightarrow> c) ws)"
  by (induction ws arbitrary: a) (auto simp: add_word_def split: option.splits)

lemma sum_list_count:
  fixes g :: "'a \<Rightarrow> int"
  shows "sum_list (map g xs) = (\<Sum>x\<in>set xs. int (count_list xs x) * g x)"
proof (induction xs)
  case Nil
  show ?case by simp
next
  case (Cons x xs)
  let ?h = "\<lambda>w. int (count_list xs w) * g w"
  let ?A = "set (x # xs)"
  have split: "\<And>w. int (count_list (x # xs) w) * g w = ?h w + (if w = x then g x else 0)"
    by (simp add: algebra_simps)
  have "(\<Sum>w\<in>?A. int (count_list (x # xs) w) * g w)
      = (\<Sum>w\<in>?A. ?h w) + (\<Sum>w\<in>?A. if w = x then g x else 0)"
    by (simp only: split sum.distrib)
  also have "(\<Sum>w\<in>?A. if w = x then g x else 0) = g x"
    by (simp add: sum.delta')
  also have "(\<Sum>w\<in>?A. ?h w) = (\<Sum>w\<in>set xs. ?h w)"
  proof (cases "x \<in> set xs")
    case True
    then have "?A = set xs" by auto
    then show ?thesis by simp
  next
    case False
    then show ?thesis by (simp add: count_list_0_iff)
  qed
  finally show ?case using Cons.IH by simp
qed

lemma sentence_score_eq:
  "sentence_score freq sentence =
     (\<Sum>w\<in>set (simple_word_tokenize sentence).
        int (count_list (simple_word_tokenize sentence) w) * (case freq w of None \<Rightarrow> 0 | Some c \<Rightarrow> c))"
  by (simp add: sentence_score_def fold_add_word sum_list_count)

lemma map_of_fold_score_sentence:
  "map_of (fold (score_sentence freq) ss acc) s =
     (if s \<in> set ss \<and> str_strip s \<noteq> [] then Some (sentence_score freq s) else map_of acc s)"
proof (induction ss arbitrary: acc)
  case Nil
  show ?case by simp
next
  case (Cons x xs)
  show ?case
    by (simp add: Cons.IH) (auto simp: score_sentence_def update_conv')
qed

lemma keys_fold_score_sentence:
  "fst ` set (fold (score_sentence freq) ss acc) = fst ` set acc \<union> {s \<in> set ss. str_strip s \<noteq> []}"
  by (induction ss arbitrary: acc) (auto simp: score_sentence_def dom_update)

lemma distinct_fold_score_sentence:
  "distinct (map fst acc) \<Longrightarrow> distinct (map fst (fold (score_sentence freq) ss acc))"
  by (induction ss arbitrary: acc) (auto simp: score_sentence_def distinct_update)

lemma map_of_sentence_scores:
  "map_of (sentence_scores self text) s =
     (if s \<in> set (simple_sentence_tokenize text) then Some (sentence_score (word_freq self text) s)
      else None)"
  using sentence_properties(1,6) [of s "text"]
  by (auto simp: sentence_scores_def map_of_fold_score_sentence)

lemma keys_sentence_scores:
  "fst ` set (sentence_scores self text) = set (simple_sentence_tokenize text)"
  using sentence_properties(1,6) [of _ "text"]
  by (auto simp: sentence_scores_def keys_fold_score_sentence)

lemma distinct_sentence_scores: "distinct (map fst (sentence_scores self text))"
  by (simp add: sentence_scores_def distinct_fold_score_sentence)

lemma sentence_scores_entry:
  "(s, score) \<in> set (sentence_scores self text) \<longleftrightarrow>
     s \<in> set (simple_sentence_tokenize text) \<and> score = sentence_score (word_freq self text) s"
  using map_of_eq_Some_iff [OF distinct_sentence_scores, of self "text" s score]
  by (auto simp: map_of_sentence_scores split: if_splits)

subsection \<open>Positions and sorting\<close>

lemma list_index_mem: "x \<in> set xs \<Longrightarrow> \<exists>i. list_index xs x = Inr i"
  by (induction xs) auto

lemma list_index_nth: "list_index xs x = Inr i \<Longrightarrow> i < length xs \<and> xs ! i = x"
  by (induction xs arbitrary: i) (auto split: if_splits sum.splits)

lemma list_index_inj:
  "list_index xs x = Inr i \<Longrightarrow> list_index xs y = Inr i \<Longrightarrow> x = y"
  using list_index_nth by blast

lemma keyed_total:
  "\<forall>x\<in>set xs. f x = Inr (g x) \<Longrightarrow> keyed f xs = Inr (map (\<lambda>x. (g x, x)) xs)"
  by (induction xs) auto

lemma insort_key_decorated:
  "insort_key fst (g x, x) (map (\<lambda>x. (g x, x)) ys) = map (\<lambda>x. (g x, x)) (insort_key g x ys)"
  by (induction ys) auto

lemma sort_key_decorated:
  "sort_key fst (map (\<lambda>x. (g x, x)) xs) = map (\<lambda>x. (g x, x)) (sort_key g xs)"
  by (induction xs) (auto simp: insort_key_decorated)

lemma sorted_key_total:
  assumes "\<forall>x\<in>set xs. f x = Inr (g x)"
  shows "sorted_key f xs = Inr (sort_key g xs)"
  by (simp add: sorted_key_def keyed_total [OF assms] sort_key_decorated comp_def)

lemma set_sorted_key_reverse [simp]: "set (sorted_key_reverse f xs) = set xs"
  by (simp add: sorted_key_reverse_def)

lemma distinct_sorted_key_reverse [simp]: "distinct (sorted_key_reverse f xs) = distinct xs"
  by (simp add: sorted_key_reverse_def)

lemma set_slice_to: "set (slice_to n xs) \<subseteq> set xs"
  by (auto simp: slice_to_def dest: in_set_takeD)

lemma distinct_slice_to: "distinct xs \<Longrightarrow> distinct (slice_to n xs)"
  by (simp add: slice_to_def)

lemma slice_to_mono:
  assumes "0 \<le> n"
  shows "set (slice_to n xs) \<subseteq> set (slice_to (n + 1) xs)"
proof -
  have "nat n \<le> nat (n + 1)" by simp
  then have "set (take (nat n) xs) \<subseteq> set (take (nat (n + 1)) xs)"
    by (rule set_take_subset_set_take)
  with assms show ?thesis by (simp add: slice_to_def)
qed

subsection \<open>The selection\<close>

lemma list_index_position: "x \<in> set xs \<Longrightarrow> list_index xs x = Inr (position xs x)"
  using list_index_mem [of x xs] by (auto simp: position_def)

lemma position_inj: "inj_on (position xs) (set xs)"
proof (rule inj_onI)
  fix x y
  assume "x \<in> set xs" and "y \<in> set xs" and eq: "position xs x = position xs y"
  then have "list_index xs x = Inr (position xs x)" and "list_index xs y = Inr (position xs x)"
    by (simp_all add: list_index_position)
  then show "x = y" by (rule list_index_inj)
qed

lemma set_summary_sentences:
  "set (summary_sentences self text n) \<subseteq> set (sentence_scores self text)"
  unfolding summary_sentences_def
  using set_slice_to [of n "sorted_key_reverse snd (sentence_scores self text)"] by simp

lemma keys_summary_sentences:
  "fst ` set (summary_sentences self text n) \<subseteq> set (simple_sentence_tokenize text)"
proof -
  have "fst ` set (summary_sentences self text n) \<subseteq> fst ` set (sentence_scores self text)"
    using set_summary_sentences by (rule image_mono)
  then show ?thesis by (simp only: keys_sentence_scores)
qed

lemma inj_on_fst_sentence_scores: "inj_on fst (set (sentence_scores self text))"
  using distinct_sentence_scores by (simp add: distinct_map)

lemma distinct_summary_sentences: "distinct (summary_sentences self text n)"
proof -
  have "distinct (sentence_scores self text)"
    using distinct_sentence_scores distinct_map by blast
  then show ?thesis by (simp add: summary_sentences_def distinct_slice_to)
qed

lemma ordered_summary_eq:
  "ordered_summary self text n =
     Inr (map fst (sort_key (\<lambda>x. position (simple_sentence_tokenize text) (fst x))
            (summary_sentences self text n)))"
proof -
  have "\<forall>x\<in>set (summary_sentences self text n).
      list_index (simple_sentence_tokenize text) (fst x)
        = Inr (position (simple_sentence_tokenize text) (fst x))"
  proof
    fix x
    assume "x \<in> set (summary_sentences self text n)"
    then have "fst x \<in> set (simple_sentence_tokenize text)"
      using keys_summary_sentences by blast
    then show "list_index (simple_sentence_tokenize text) (fst x)
        = Inr (position (simple_sentence_tokenize text) (fst x))"
      by (rule list_index_position)
  qed
  then have "sorted_key (\<lambda>x. list_index (simple_sentence_tokenize text) (fst x))
        (summary_sentences self text n)
      = Inr (sort_key (\<lambda>x. position (simple_sentence_tokenize text) (fst x))
          (summary_sentences self text n))"
    by (rule sorted_key_total)
  then show ?thesis
    by (simp add: ordered_summary_def)
qed

lemma set_ordered_summary:
  "ordered_summary self text n = Inr ss \<Longrightarrow> set ss = fst ` set (summary_sentences self text n)"
  by (simp add: ordered_summary_eq) (metis set_map set_sort)

lemma ordered_summary_positions:
  assumes "ordered_summary self text n = Inr ss"
  shows "map (list_index (simple_sentence_tokenize text)) ss
           = map Inr (map (position (simple_sentence_tokenize text)) ss)"
    and "sorted_wrt (<) (map (position (simple_sentence_tokenize text)) ss)"
proof -
  let ?S = "simple_sentence_tokenize text"
  let ?sel = "summary_sentences self text n"
  let ?key = "\<lambda>x. position ?S (fst x)"
  have ss: "ss = map fst (sort_key ?key ?sel)"
    using assms by (simp add: ordered_summary_eq)
  have sub: "set ss \<subseteq> set ?S"
    using set_ordered_summary [OF assms] keys_summary_sentences by simp
  then show "map (list_index ?S) ss = map Inr (map (position ?S) ss)"
    by (simp add: list_index_position subset_iff)
  have keys: "map (position ?S) ss = map ?key (sort_key ?key ?sel)"
    by (simp add: ss comp_def)
  have "sorted (map (position ?S) ss)"
    unfolding keys by (rule sorted_sort_key)
  moreover have "distinct (map (position ?S) ss)"
  proof -
    have "inj_on fst (set ?sel)"
      using inj_on_fst_sentence_scores set_summary_sentences by (rule inj_on_subset)
    moreover have "inj_on (position ?S) (fst ` set ?sel)"
      using position_inj keys_summary_sentences by (rule inj_on_subset)
    ultimately have "inj_on (position ?S \<circ> fst) (set ?sel)"
      by (rule comp_inj_on)
    then have "inj_on ?key (set ?sel)"
      by (simp add: comp_def)
    then show ?thesis
      unfolding keys using distinct_summary_sentences by (simp add: distinct_map)
  qed
  ultimately show "sorted_wrt (<) (map (position ?S) ss)"
    by (simp add: strict_sorted_iff)
qed

lemma extractive_summarize_few:
  assumes "10 \<le> length (str_split text)"
    and "int (length (simple_sentence_tokenize text)) \<le> num_sentences"
  shows "extractive_summarize self text num_sentences = text"
proof -
  from assms(1) have "text \<noteq> []" by auto
  with assms show ?thesis
    by (simp add: extractive_summarize_def extractive_try_def)
qed

lemma extractive_try_selection:
  assumes "10 \<le> length (str_split text)"
    and "num_sentences < int (length (simple_sentence_tokenize text))"
    and "ordered_summary self text num_sentences = Inr ss"
  shows "extractive_try self text num_sentences = Inr (str_join '' '' ss)"
    and "extractive_summarize self text num_sentences = str_join '' '' ss"
proof -
  from assms(1) have "text \<noteq> []" by auto
  with assms show "extractive_try self text num_sentences = Inr (str_join '' '' ss)"
    by (simp add: extractive_try_def)
  then show "extractive_summarize self text num_sentences = str_join '' '' ss"
    by (simp add: extractive_summarize_def)
qed

lemma extractive_summarize_stop_words:
  assumes "stop_words self = stop_words self'"
  shows "extractive_summarize self text n = extractive_summarize self' text n"
  using assms
  by (simp add: extractive_summarize_def extractive_try_def ordered_summary_def
      summary_sentences_def sentence_scores_def word_freq_def kept_words_def)

section \<open>The short-text fallback\<close>

text \<open>
  C1: a text of fewer than 10 whitespace-separated words, the empty text included, is
  answered by the fixed message \<open>Text is too short to summarize.\<close>, by
  \<open>extractive_summarize\<close> for every integer \<open>num_sentences\<close> and by \<open>abstractive_summarize\<close>
  whatever the client is.
\<close>

theorem short_text_message:
  assumes "length (str_split text) < 10"
  shows "extractive_summarize self text num_sentences = ''Text is too short to summarize.''
       \<and> abstractive_summarize self text = ''Text is too short to summarize.''"
  using assms by (simp add: extractive_summarize_def extractive_try_def abstractive_summarize_def)

theorem short_text_message_witness:
  "length (str_split ''The cat sat on the mat.'') < 10
   \<and> extractive_summarize (TextSummarizer_init (\<lambda>p. Inr p)) ''The cat sat on the mat.'' 3
       = ''Text is too short to summarize.''
   \<and> abstractive_summarize (TextSummarizer_init (\<lambda>p. Inr p)) ''The cat sat on the mat.''
       = ''Text is too short to summarize.''
   \<and> extractive_summarize (TextSummarizer_init (\<lambda>p. Inr p)) [] (- 2)
       = ''Text is too short to summarize.''
   \<and> abstractive_summarize (TextSummarizer_init (\<lambda>p. Inr p)) []
       = ''Text is too short to summarize.''"
proof -
  let ?S = "TextSummarizer_init (\<lambda>p. Inr p)"
  have short: "length (str_split ''The cat sat on the mat.'') < 10"
    by code_simp
  have empty: "length (str_split []) < 10"
    by simp
  from short_text_message [OF short, of ?S 3] short_text_message [OF empty, of ?S "- 2"] short
  show ?thesis
    by (intro conjI) blast+
qed

section \<open>A text with no more sentences than requested\<close>

text \<open>
  C2, amended: when the text has at least 10 words and its sentence count is at most
  \<open>num_sentences\<close>, \<open>extractive_summarize\<close> returns the text itself, unchanged (line 96
  returns \<open>text\<close>, not the sentences joined again): the terminators and the spacing of
  the input are kept.
\<close>

theorem few_sentences_returns_text:
  assumes "10 \<le> length (str_split text)"
    and "int (length (simple_sentence_tokenize text)) \<le> num_sentences"
  shows "extractive_summarize self text num_sentences = text"
  using assms by (rule extractive_summarize_few)

theorem few_sentences_returns_text_witness:
  "10 \<le> length (str_split ''One two three four five six seven eight nine ten. Eleven twelve.'')
   \<and> extractive_summarize (TextSummarizer_init (\<lambda>p. Inr p))
         ''One two three four five six seven eight nine ten. Eleven twelve.'' 3
       = ''One two three four five six seven eight nine ten. Eleven twelve.''"
proof -
  let ?T = "''One two three four five six seven eight nine ten. Eleven twelve.''"
  have words: "10 \<le> length (str_split ?T)"
    by code_simp
  have few: "int (length (simple_sentence_tokenize ?T)) \<le> 3"
    by code_simp
  from few_sentences_returns_text [OF words few] words show ?thesis
    by simp
qed

text \<open>
  The claim as written fails: the two sentences of this text, joined by a single space,
  have lost their full stops, and the text that is returned has not.
\<close>

theorem few_sentences_joined_counterexample:
  "10 \<le> length (str_split ''One two three four five six seven eight nine ten. Eleven twelve.'')
   \<and> int (length (simple_sentence_tokenize
         ''One two three four five six seven eight nine ten. Eleven twelve.'')) \<le> 3
   \<and> str_join '' '' (simple_sentence_tokenize
         ''One two three four five six seven eight nine ten. Eleven twelve.'')
       = ''One two three four five six seven eight nine ten Eleven twelve''
   \<and> extractive_summarize (TextSummarizer_init (\<lambda>p. Inr p))
         ''One two three four five six seven eight nine ten. Eleven twelve.'' 3
       = ''One two three four five six seven eight nine ten. Eleven twelve.''
   \<and> extractive_summarize (TextSummarizer_init (\<lambda>p. Inr p))
         ''One two three four five six seven eight nine ten. Eleven twelve.'' 3
       \<noteq> str_join '' '' (simple_sentence_tokenize
           ''One two three four five six seven eight nine ten. Eleven twelve.'')"
  by code_simp

section \<open>The preprocessor\<close>

lemma preprocess_text_basic:
  "(\<forall>c\<in>set (preprocess_text text). isword c \<or> c = CHR '' '' \<or> c = CHR ''.'')
   \<and> filter (\<lambda>c. \<not> isspace c) (preprocess_text text)
       = filter (\<lambda>c. isword c \<or> c = CHR ''.'') text
   \<and> (preprocess_text text \<noteq> [] \<longrightarrow>
         \<not> isspace (hd (preprocess_text text)) \<and> \<not> isspace (last (preprocess_text text)))
   \<and> preprocess_text [] = []
   \<and> ((\<forall>c\<in>set text. isword c \<or> isspace c \<or> c = CHR ''.'') \<longrightarrow>
         \<not> double_space (preprocess_text text))"
proof (intro conjI)
  let ?keep = "\<lambda>c. isword c \<or> isspace c \<or> c = CHR ''.''"
  show "\<forall>c\<in>set (preprocess_text text). isword c \<or> c = CHR '' '' \<or> c = CHR ''.''"
  proof
    fix c
    assume "c \<in> set (preprocess_text text)"
    then have "c \<in> set (str_strip (filter ?keep (collapse_ws text)))"
      by (simp add: preprocess_text_def)
    then have "c \<in> set (filter ?keep (collapse_ws text))"
      using set_str_strip by blast
    then have k: "?keep c" and "c \<in> set (collapse_ws text)" by auto
    then have "c = CHR '' '' \<or> \<not> isspace c" using collapse_ws_chars by blast
    with k show "isword c \<or> c = CHR '' '' \<or> c = CHR ''.''" by blast
  qed
  have eq: "(\<lambda>c. \<not> isspace c \<and> ?keep c) = (\<lambda>c. isword c \<or> c = CHR ''.'')"
    using isword_not_isspace not_isspace_terminator [of "CHR ''.''"]
    by (auto simp: is_terminator_def)
  have "filter (\<lambda>c. \<not> isspace c) (preprocess_text text)
      = filter (\<lambda>c. \<not> isspace c) (filter ?keep (collapse_ws text))"
    unfolding preprocess_text_def Let_def by (rule filter_str_strip_nonspace)
  also have "\<dots> = filter (\<lambda>c. \<not> isspace c \<and> ?keep c) (collapse_ws text)"
    by (simp add: conj_commute)
  also have "\<dots> = filter (\<lambda>c. \<not> isspace c \<and> ?keep c) text"
    by (rule filter_collapse_ws)
  finally show "filter (\<lambda>c. \<not> isspace c) (preprocess_text text)
      = filter (\<lambda>c. isword c \<or> c = CHR ''.'') text"
    by (simp only: eq)
  show "preprocess_text text \<noteq> [] \<longrightarrow>
         \<not> isspace (hd (preprocess_text text)) \<and> \<not> isspace (last (preprocess_text text))"
    unfolding preprocess_text_def Let_def using str_strip_ends by blast
  show "preprocess_text [] = []"
    by (simp add: preprocess_text_def)
  show "(\<forall>c\<in>set text. ?keep c) \<longrightarrow> \<not> double_space (preprocess_text text)"
  proof
    assume "\<forall>c\<in>set text. ?keep c"
    then have "preprocess_text text = str_strip (collapse_ws text)"
      by (simp add: preprocess_text_def collapse_ws_allowed)
    then show "\<not> double_space (preprocess_text text)"
      using double_space_str_strip not_double_space_collapse_ws by metis
  qed
qed

text \<open>
  C3, amended: \<open>preprocess_text\<close> returns the whitespace-separated words of the input, each
  without its characters that are neither word characters nor full stops, joined by single
  spaces; the words that the deletion has emptied are dropped at the start and at the end,
  and stay as empty pieces between two words that keep a character. So every whitespace
  run of the input has become one space, every character that is not a word character,
  whitespace or a full stop is gone and no other, the result neither starts nor ends with
  whitespace, and it is empty for the empty input. It has two consecutive spaces exactly
  when an emptied word stands between two words that keep a character.
\<close>

theorem preprocess_text_result:
  "preprocess_text text
     = str_join '' '' (trim_empty (map (filter (\<lambda>c. isword c \<or> c = CHR ''.'')) (str_split text)))
   \<and> (double_space (preprocess_text text)
        \<longleftrightarrow> [] \<in> set (trim_empty (map (filter (\<lambda>c. isword c \<or> c = CHR ''.'')) (str_split text))))
   \<and> (\<forall>c\<in>set (preprocess_text text). isword c \<or> c = CHR '' '' \<or> c = CHR ''.'')
   \<and> filter (\<lambda>c. \<not> isspace c) (preprocess_text text)
       = filter (\<lambda>c. isword c \<or> c = CHR ''.'') text
   \<and> (preprocess_text text \<noteq> [] \<longrightarrow>
         \<not> isspace (hd (preprocess_text text)) \<and> \<not> isspace (last (preprocess_text text)))
   \<and> preprocess_text [] = []"
proof (intro conjI)
  show "preprocess_text text
      = str_join '' '' (trim_empty (map (filter (\<lambda>c. isword c \<or> c = CHR ''.'')) (str_split text)))"
    by (rule preprocess_text_words)
  show "double_space (preprocess_text text)
      \<longleftrightarrow> [] \<in> set (trim_empty (map (filter (\<lambda>c. isword c \<or> c = CHR ''.'')) (str_split text)))"
    by (rule preprocess_text_double_space)
  show "\<forall>c\<in>set (preprocess_text text). isword c \<or> c = CHR '' '' \<or> c = CHR ''.''"
    using preprocess_text_basic [of "text"] by (rule conjunct1)
  show "filter (\<lambda>c. \<not> isspace c) (preprocess_text text)
      = filter (\<lambda>c. isword c \<or> c = CHR ''.'') text"
    using preprocess_text_basic [of "text"] by blast
  show "preprocess_text text \<noteq> [] \<longrightarrow>
      \<not> isspace (hd (preprocess_text text)) \<and> \<not> isspace (last (preprocess_text text))"
    using preprocess_text_basic [of "text"] by blast
  show "preprocess_text [] = []"
    by (simp add: preprocess_text_def)
qed

theorem preprocess_text_result_witness:
  "preprocess_text ''  Hello,   world.  '' = ''Hello world.''
   \<and> \<not> double_space (preprocess_text ''  Hello,   world.  '')
   \<and> \<not> isspace (hd (preprocess_text ''  Hello,   world.  ''))
   \<and> \<not> isspace (last (preprocess_text ''  Hello,   world.  ''))
   \<and> double_space (preprocess_text ''Hello , world'')"
proof -
  let ?T = "''  Hello,   world.  ''" and ?U = "''Hello , world''"
  have words: "trim_empty (map (filter (\<lambda>c. isword c \<or> c = CHR ''.'')) (str_split ?T)) = [''Hello'', ''world.'']"
    by code_simp
  have emptied: "[] \<in> set (trim_empty (map (filter (\<lambda>c. isword c \<or> c = CHR ''.'')) (str_split ?U)))"
    by code_simp
  note result = preprocess_text_result [of ?T]
  from result have "preprocess_text ?T
      = str_join '' '' (trim_empty (map (filter (\<lambda>c. isword c \<or> c = CHR ''.'')) (str_split ?T)))"
    by (rule conjunct1)
  then have out: "preprocess_text ?T = ''Hello world.''"
    unfolding words by simp
  from result have "double_space (preprocess_text ?T)
      \<longleftrightarrow> [] \<in> set (trim_empty (map (filter (\<lambda>c. isword c \<or> c = CHR ''.'')) (str_split ?T)))"
    by blast
  then have single: "\<not> double_space (preprocess_text ?T)"
    unfolding words by simp
  have nonempty: "preprocess_text ?T \<noteq> []"
    unfolding out by simp
  from result nonempty
  have ends: "\<not> isspace (hd (preprocess_text ?T)) \<and> \<not> isspace (last (preprocess_text ?T))"
    by blast
  from preprocess_text_result [of ?U] emptied have double: "double_space (preprocess_text ?U)"
    by blast
  from out single ends double show ?thesis
    by blast
qed

text \<open>
  The claim as written fails: where a deleted character stood between two whitespace runs,
  the two spaces that replaced the runs end up side by side.
\<close>

theorem preprocess_text_double_space_counterexample:
  "preprocess_text ''Hello , world'' = ''Hello  world''
   \<and> double_space (preprocess_text ''Hello , world'')"
  by code_simp

section \<open>The sentence tokenizer\<close>

text \<open>
  C8: \<open>simple_sentence_tokenize\<close> collapses whitespace, splits on the runs of \<open>.\<close>, \<open>!\<close> and
  \<open>?\<close>, drops the pieces that are empty or blank and trims the others. Every sentence it
  returns is non-empty, has no terminator, starts and ends with a character that is not
  whitespace, and has single spaces as its only whitespace. A text without terminator is
  one sentence (or none when it is blank); the sentences of a text cut at a terminator are
  those of the part before it followed by those of the part after it, so they come in the
  order of the text; and a terminator at the end adds no sentence.
\<close>

theorem simple_sentence_tokenize_sentences:
  "(\<forall>s\<in>set (simple_sentence_tokenize text).
      s \<noteq> [] \<and> (\<forall>c\<in>set s. \<not> is_terminator c \<and> (isspace c \<longrightarrow> c = CHR '' ''))
      \<and> \<not> isspace (hd s) \<and> \<not> isspace (last s) \<and> \<not> double_space s)
   \<and> ((\<forall>c\<in>set text. \<not> is_terminator c) \<longrightarrow>
        simple_sentence_tokenize text
          = (if str_strip (collapse_ws text) = [] then [] else [str_strip (collapse_ws text)]))
   \<and> (is_terminator t \<longrightarrow>
        simple_sentence_tokenize (text @ t # rest)
          = simple_sentence_tokenize text @ simple_sentence_tokenize rest)
   \<and> (is_terminator t \<longrightarrow> simple_sentence_tokenize (text @ [t]) = simple_sentence_tokenize text)"
proof (intro conjI ballI impI)
  fix s
  assume s: "s \<in> set (simple_sentence_tokenize text)"
  show "s \<noteq> []" "\<not> isspace (hd s)" "\<not> isspace (last s)" "\<not> double_space s"
    using sentence_properties [OF s] by blast+
  fix c
  assume "c \<in> set s"
  then show "\<not> is_terminator c" "isspace c \<Longrightarrow> c = CHR '' ''"
    using sentence_properties(2) [OF s] by blast+
next
  assume "\<forall>c\<in>set text. \<not> is_terminator c"
  then show "simple_sentence_tokenize text
      = (if str_strip (collapse_ws text) = [] then [] else [str_strip (collapse_ws text)])"
    by (rule simple_sentence_tokenize_single)
next
  assume t: "is_terminator t"
  show "simple_sentence_tokenize (text @ t # rest)
      = simple_sentence_tokenize text @ simple_sentence_tokenize rest"
    using t by (rule simple_sentence_tokenize_append)
  show "simple_sentence_tokenize (text @ [t]) = simple_sentence_tokenize text"
    using simple_sentence_tokenize_append [OF t, of "text" "[]"] by simp
qed

theorem simple_sentence_tokenize_sentences_witness:
  "simple_sentence_tokenize ''It rains. Stay  home! Or not'' = [''It rains'', ''Stay home'', ''Or not'']
   \<and> simple_sentence_tokenize (''It rains. Stay  home'' @ CHR ''!'' # '' Or not'')
       = simple_sentence_tokenize ''It rains. Stay  home'' @ simple_sentence_tokenize '' Or not''
   \<and> simple_sentence_tokenize (''It rains. Stay  home'' @ [CHR ''!''])
       = simple_sentence_tokenize ''It rains. Stay  home''
   \<and> simple_sentence_tokenize '' Or not'' = [str_strip (collapse_ws '' Or not'')]"
proof -
  let ?A = "''It rains. Stay  home''" and ?B = "'' Or not''"
  have three: "simple_sentence_tokenize ''It rains. Stay  home! Or not''
      = [''It rains'', ''Stay home'', ''Or not'']"
    by code_simp
  have bang: "is_terminator CHR ''!''"
    by (simp add: is_terminator_def)
  have none: "\<forall>c\<in>set ?B. \<not> is_terminator c"
    by code_simp
  have nonblank: "str_strip (collapse_ws ?B) \<noteq> []"
    by code_simp
  note cut = simple_sentence_tokenize_sentences [of ?A "CHR ''!''" ?B]
  from cut bang have split: "simple_sentence_tokenize (?A @ CHR ''!'' # ?B)
      = simple_sentence_tokenize ?A @ simple_sentence_tokenize ?B"
    by blast
  from cut bang have trailing: "simple_sentence_tokenize (?A @ [CHR ''!''])
      = simple_sentence_tokenize ?A"
    by blast
  from simple_sentence_tokenize_sentences [of ?B] none
  have "simple_sentence_tokenize ?B
      = (if str_strip (collapse_ws ?B) = [] then [] else [str_strip (collapse_ws ?B)])"
    by blast
  with nonblank have single: "simple_sentence_tokenize ?B = [str_strip (collapse_ws ?B)]"
    by (simp only: if_False)
  from three split trailing single show ?thesis
    by (intro conjI)
qed

section \<open>Sentence scores\<close>

text \<open>
  C6: every sentence of the document has a score, and the score is the sum, over the
  word tokens of the sentence (unfiltered), of the value the frequency table holds for the
  token: a token that occurs \<open>k\<close> times in the sentence adds \<open>k\<close> times its table value,
  and a token that is no key of the table adds 0. The table value of a key is the number
  of its occurrences among the kept words of the whole document. The score is not
  negative.
\<close>

theorem sentence_score_sum:
  assumes "sentence \<in> set (simple_sentence_tokenize text)"
  shows "\<exists>score. map_of (sentence_scores self text) sentence = Some score
     \<and> score = (\<Sum>w\<in>set (simple_word_tokenize sentence).
          int (count_list (simple_word_tokenize sentence) w)
            * (case word_freq self text w of None \<Rightarrow> 0 | Some c \<Rightarrow> c))
     \<and> 0 \<le> score
     \<and> (\<forall>w. word_freq self text w =
          (if w \<in> set (kept_words self text)
           then Some (int (count_list (kept_words self text) w)) else None))"
proof -
  let ?score = "sentence_score (word_freq self text) sentence"
  have "map_of (sentence_scores self text) sentence = Some ?score"
    using assms by (simp add: map_of_sentence_scores)
  moreover have sum: "?score = (\<Sum>w\<in>set (simple_word_tokenize sentence).
          int (count_list (simple_word_tokenize sentence) w)
            * (case word_freq self text w of None \<Rightarrow> 0 | Some c \<Rightarrow> c))"
    by (rule sentence_score_eq)
  moreover have "0 \<le> ?score"
    unfolding sum
    by (rule sum_nonneg) (auto split: option.splits dest: word_freq_nonneg)
  ultimately show ?thesis
    using word_freq_eq by blast
qed

theorem sentence_score_sum_witness:
  "''Cats sleep a lot'' \<in> set (simple_sentence_tokenize
       ''Cats are great. Cats sleep a lot. Cats are independent animals.'')
   \<and> map_of (sentence_scores (TextSummarizer_init (\<lambda>p. Inr p))
         ''Cats are great. Cats sleep a lot. Cats are independent animals.'') ''Cats sleep a lot''
       = Some 6
   \<and> (\<Sum>w\<in>set (simple_word_tokenize ''Cats sleep a lot'').
         int (count_list (simple_word_tokenize ''Cats sleep a lot'') w)
           * (case word_freq (TextSummarizer_init (\<lambda>p. Inr p))
                  ''Cats are great. Cats sleep a lot. Cats are independent animals.'' w of
                None \<Rightarrow> 0 | Some c \<Rightarrow> c)) = 6"
proof -
  let ?T = "''Cats are great. Cats sleep a lot. Cats are independent animals.''"
  let ?S = "TextSummarizer_init (\<lambda>p. Inr p)"
  have mem: "''Cats sleep a lot'' \<in> set (simple_sentence_tokenize ?T)"
    by code_simp
  have six: "map_of (sentence_scores ?S ?T) ''Cats sleep a lot'' = Some 6"
    by code_simp
  from sentence_score_sum [OF mem, of ?S] obtain score where
    "map_of (sentence_scores ?S ?T) ''Cats sleep a lot'' = Some score"
    and "score = (\<Sum>w\<in>set (simple_word_tokenize ''Cats sleep a lot'').
         int (count_list (simple_word_tokenize ''Cats sleep a lot'') w)
           * (case word_freq ?S ?T w of None \<Rightarrow> 0 | Some c \<Rightarrow> c))"
    by blast
  with six mem show ?thesis
    by simp
qed

section \<open>The frequency table and the stop words\<close>

text \<open>
  No key of the frequency table is a stop word, and no key is empty or blank. When every
  word token of the document is a stop word, the table is empty and every sentence has the
  score 0.
\<close>

lemma word_freq_no_stop_words:
  "dom (word_freq self text) \<inter> stop_words self = {}
   \<and> (\<forall>w\<in>dom (word_freq self text). w \<noteq> [] \<and> str_strip w \<noteq> [])
   \<and> ((\<forall>w\<in>set (simple_word_tokenize text). w \<in> stop_words self) \<longrightarrow>
        word_freq self text = Map.empty
        \<and> (\<forall>sentence\<in>set (simple_sentence_tokenize text).
              map_of (sentence_scores self text) sentence = Some 0))"
proof (intro conjI impI)
  show "dom (word_freq self text) \<inter> stop_words self = {}"
    by (auto simp: dom_word_freq kept_words_def)
  show "\<forall>w\<in>dom (word_freq self text). w \<noteq> [] \<and> str_strip w \<noteq> []"
    by (auto simp: dom_word_freq kept_words_def)
  assume stop: "\<forall>w\<in>set (simple_word_tokenize text). w \<in> stop_words self"
  then have "kept_words self text = []"
    by (simp add: kept_words_def)
  then show empty: "word_freq self text = Map.empty"
    by (simp add: word_freq_def)
  show "\<forall>sentence\<in>set (simple_sentence_tokenize text).
      map_of (sentence_scores self text) sentence = Some 0"
    by (simp add: map_of_sentence_scores sentence_score_eq empty)
qed

lemma contraction_tokens:
  "simple_word_tokenize ''You're'' = [''you'', ''re'']
   \<and> ''re'' \<notin> stop_words (TextSummarizer_init client)"
  by (simp add: TextSummarizer_init_def) code_simp

text \<open>
  C7: the table has no stop word and no empty token as a key, but a document that consists
  of stop words and punctuation only does not always give an empty table. The stop words
  of \<open>__init__\<close> include \<open>you're\<close>, \<open>you've\<close>, \<open>you'll\<close>, \<open>you'd\<close>, \<open>she's\<close> and \<open>it's\<close>, and
  \<open>simple_word_tokenize\<close> cuts each of them at its apostrophe before the filter of line 99
  sees it. In the document below every word is one of these entries; the pieces \<open>re\<close>,
  \<open>ve\<close>, \<open>ll\<close>, \<open>d\<close> and \<open>s\<close> are kept and counted, and its three sentences score 8, 12
  and 12. After \<open>preprocess_text\<close>, which deletes the apostrophes, the kept words are
  \<open>youre\<close>, \<open>youve\<close> and so on, and the table is not empty either.
\<close>

theorem contractions_counted:
  "set (map (filter (\<lambda>c. c \<noteq> CHR ''.'')) (str_split (str_lower ''You're you've you'll you'd. She's it's you're you've. You'll you'd she's it's.'')))
     \<subseteq> stop_words (TextSummarizer_init (\<lambda>p. Inr p))
   \<and> kept_words (TextSummarizer_init (\<lambda>p. Inr p)) ''You're you've you'll you'd. She's it's you're you've. You'll you'd she's it's.''
       = [''re'', ''ve'', ''ll'', ''d'', ''s'', ''s'', ''re'', ''ve'', ''ll'', ''d'', ''s'', ''s'']
   \<and> word_freq (TextSummarizer_init (\<lambda>p. Inr p)) ''You're you've you'll you'd. She's it's you're you've. You'll you'd she's it's.'' ''re'' = Some 2
   \<and> map snd (sentence_scores (TextSummarizer_init (\<lambda>p. Inr p)) ''You're you've you'll you'd. She's it's you're you've. You'll you'd she's it's.'') = [8, 12, 12]
   \<and> word_freq (TextSummarizer_init (\<lambda>p. Inr p)) (preprocess_text ''You're you've you'll you'd. She's it's you're you've. You'll you'd she's it's.'') ''youre'' = Some 2"
  by code_simp

section \<open>The selection keeps the order of the document\<close>

text \<open>
  C4: when \<open>extractive_summarize\<close> selects (at least 10 words, more sentences than
  \<open>num_sentences\<close>), its output is the selected sentences joined by single spaces, every
  one of them is a sentence of the document, \<open>sentences.index\<close> finds each of them, and the
  positions it finds are strictly increasing along the output, whatever the scores are.
\<close>

theorem summary_in_document_order:
  assumes "10 \<le> length (str_split text)"
    and "num_sentences < int (length (simple_sentence_tokenize text))"
  shows "\<exists>ss ks. ordered_summary self text num_sentences = Inr ss
     \<and> extractive_summarize self text num_sentences = str_join '' '' ss
     \<and> set ss \<subseteq> set (simple_sentence_tokenize text)
     \<and> map (list_index (simple_sentence_tokenize text)) ss = map Inr ks
     \<and> sorted_wrt (<) ks"
proof -
  obtain ss where ss: "ordered_summary self text num_sentences = Inr ss"
    by (simp add: ordered_summary_eq)
  let ?ks = "map (position (simple_sentence_tokenize text)) ss"
  have "extractive_summarize self text num_sentences = str_join '' '' ss"
    using assms ss by (rule extractive_try_selection)
  moreover have "set ss \<subseteq> set (simple_sentence_tokenize text)"
    using set_ordered_summary [OF ss] keys_summary_sentences by simp
  moreover have "map (list_index (simple_sentence_tokenize text)) ss = map Inr ?ks"
    and "sorted_wrt (<) ?ks"
    using ss by (rule ordered_summary_positions)+
  ultimately show ?thesis using ss by blast
qed

theorem summary_in_document_order_witness:
  "10 \<le> length (str_split ''Cats are great. Cats sleep a lot. Cats are independent animals.'')
   \<and> 2 < int (length (simple_sentence_tokenize ''Cats are great. Cats sleep a lot. Cats are independent animals.''))
   \<and> ordered_summary (TextSummarizer_init (\<lambda>p. Inr p)) ''Cats are great. Cats sleep a lot. Cats are independent animals.'' 2
       = Inr [''Cats are great'', ''Cats are independent animals'']
   \<and> extractive_summarize (TextSummarizer_init (\<lambda>p. Inr p)) ''Cats are great. Cats sleep a lot. Cats are independent animals.'' 2
       = ''Cats are great Cats are independent animals''
   \<and> map (list_index (simple_sentence_tokenize ''Cats are great. Cats sleep a lot. Cats are independent animals.''))
         [''Cats are great'', ''Cats are independent animals''] = [Inr 0, Inr 2]
   \<and> (\<exists>ks. map (list_index (simple_sentence_tokenize ''Cats are great. Cats sleep a lot. Cats are independent animals.''))
           [''Cats are great'', ''Cats are independent animals''] = map Inr ks
         \<and> sorted_wrt (<) ks)"
proof -
  let ?T = "''Cats are great. Cats sleep a lot. Cats are independent animals.''"
  let ?S = "TextSummarizer_init (\<lambda>p. Inr p)"
  let ?sel = "[''Cats are great'', ''Cats are independent animals'']"
  have words: "10 \<le> length (str_split ?T)"
    by code_simp
  have more: "2 < int (length (simple_sentence_tokenize ?T))"
    by code_simp
  have sel: "ordered_summary ?S ?T 2 = Inr ?sel"
    by code_simp
  have idx: "map (list_index (simple_sentence_tokenize ?T)) ?sel = [Inr 0, Inr 2]"
    by code_simp
  from summary_in_document_order [OF words more, of ?S] obtain ss ks where
    a: "ordered_summary ?S ?T 2 = Inr ss"
    and b: "extractive_summarize ?S ?T 2 = str_join '' '' ss"
    and c: "map (list_index (simple_sentence_tokenize ?T)) ss = map Inr ks"
    and d: "sorted_wrt (<) ks"
    by blast
  from a sel have e: "ss = ?sel"
    by simp
  have out: "extractive_summarize ?S ?T 2 = ''Cats are great Cats are independent animals''"
    unfolding b e by simp
  have ex: "\<exists>ks. map (list_index (simple_sentence_tokenize ?T)) ?sel = map Inr ks
      \<and> sorted_wrt (<) ks"
    using c d unfolding e by blast
  from words more sel out idx ex show ?thesis
    by (intro conjI)
qed

section \<open>A larger count keeps the selected sentences\<close>

text \<open>
  C5: for a count \<open>n \<ge> 0\<close> with \<open>n + 1\<close> at most the number of sentences of a text of at
  least 10 words, every sentence of the summary for \<open>n\<close> is a sentence of the summary for
  \<open>n + 1\<close>: both are prefixes of the same ranking. When \<open>n + 1\<close> is the number of
  sentences, the summary for \<open>n + 1\<close> is the whole text, of which they are sentences. No
  condition on ties is needed.
\<close>

theorem summary_grows_with_count:
  assumes "0 \<le> n"
    and "10 \<le> length (str_split text)"
    and "n + 1 \<le> int (length (simple_sentence_tokenize text))"
  shows "\<exists>a. ordered_summary self text n = Inr a
     \<and> extractive_summarize self text n = str_join '' '' a
     \<and> (if n + 1 < int (length (simple_sentence_tokenize text))
         then \<exists>b. ordered_summary self text (n + 1) = Inr b
                \<and> extractive_summarize self text (n + 1) = str_join '' '' b
                \<and> set a \<subseteq> set b
         else extractive_summarize self text (n + 1) = text
                \<and> set a \<subseteq> set (simple_sentence_tokenize text))"
proof -
  obtain a where a: "ordered_summary self text n = Inr a"
    by (simp add: ordered_summary_eq)
  have less: "n < int (length (simple_sentence_tokenize text))"
    using assms(3) by simp
  have out: "extractive_summarize self text n = str_join '' '' a"
    using assms(2) less a by (rule extractive_try_selection)
  have sa: "set a = fst ` set (summary_sentences self text n)"
    using a by (rule set_ordered_summary)
  show ?thesis
  proof (cases "n + 1 < int (length (simple_sentence_tokenize text))")
    case True
    obtain b where b: "ordered_summary self text (n + 1) = Inr b"
      by (simp add: ordered_summary_eq)
    have "extractive_summarize self text (n + 1) = str_join '' '' b"
      using assms(2) True b by (rule extractive_try_selection)
    moreover have "set (summary_sentences self text n) \<subseteq> set (summary_sentences self text (n + 1))"
      unfolding summary_sentences_def using assms(1) by (rule slice_to_mono)
    then have "set a \<subseteq> set b"
      unfolding sa set_ordered_summary [OF b] by (rule image_mono)
    ultimately show ?thesis using a out b True by auto
  next
    case False
    with assms(3) have "int (length (simple_sentence_tokenize text)) \<le> n + 1" by simp
    with assms(2) have "extractive_summarize self text (n + 1) = text"
      by (rule extractive_summarize_few)
    moreover have "set a \<subseteq> set (simple_sentence_tokenize text)"
      unfolding sa by (rule keys_summary_sentences)
    ultimately show ?thesis using a out False by auto
  qed
qed

theorem summary_grows_with_count_witness:
  "(0::int) \<le> 1
   \<and> 10 \<le> length (str_split ''Cats are great. Cats sleep a lot. Cats are independent animals.'')
   \<and> 1 + 1 \<le> int (length (simple_sentence_tokenize ''Cats are great. Cats sleep a lot. Cats are independent animals.''))
   \<and> (\<exists>a b. ordered_summary (TextSummarizer_init (\<lambda>p. Inr p)) ''Cats are great. Cats sleep a lot. Cats are independent animals.'' 1 = Inr a
         \<and> ordered_summary (TextSummarizer_init (\<lambda>p. Inr p)) ''Cats are great. Cats sleep a lot. Cats are independent animals.'' (1 + 1) = Inr b
         \<and> extractive_summarize (TextSummarizer_init (\<lambda>p. Inr p)) ''Cats are great. Cats sleep a lot. Cats are independent animals.'' 1 = str_join '' '' a
         \<and> extractive_summarize (TextSummarizer_init (\<lambda>p. Inr p)) ''Cats are great. Cats sleep a lot. Cats are independent animals.'' (1 + 1) = str_join '' '' b
         \<and> set a \<subseteq> set b)
   \<and> ordered_summary (TextSummarizer_init (\<lambda>p. Inr p)) ''Cats are great. Cats sleep a lot. Cats are independent animals.'' 1
       = Inr [''Cats are independent animals'']"
proof -
  let ?T = "''Cats are great. Cats sleep a lot. Cats are independent animals.''"
  let ?S = "TextSummarizer_init (\<lambda>p. Inr p)"
  have count: "(0::int) \<le> 1"
    by simp
  have words: "10 \<le> length (str_split ?T)"
    by code_simp
  have most: "1 + 1 \<le> int (length (simple_sentence_tokenize ?T))"
    by code_simp
  have less: "1 + 1 < int (length (simple_sentence_tokenize ?T))"
    by code_simp
  have one: "ordered_summary ?S ?T 1 = Inr [''Cats are independent animals'']"
    by code_simp
  from summary_grows_with_count [OF count words most, of ?S] obtain a where
    a: "ordered_summary ?S ?T 1 = Inr a"
    and out: "extractive_summarize ?S ?T 1 = str_join '' '' a"
    and step: "if 1 + 1 < int (length (simple_sentence_tokenize ?T))
         then \<exists>b. ordered_summary ?S ?T (1 + 1) = Inr b
                \<and> extractive_summarize ?S ?T (1 + 1) = str_join '' '' b
                \<and> set a \<subseteq> set b
         else extractive_summarize ?S ?T (1 + 1) = ?T
                \<and> set a \<subseteq> set (simple_sentence_tokenize ?T)"
    by blast
  from step less obtain b where
    "ordered_summary ?S ?T (1 + 1) = Inr b"
    and "extractive_summarize ?S ?T (1 + 1) = str_join '' '' b"
    and "set a \<subseteq> set b"
    by (simp only: if_True) blast
  with a out have both: "\<exists>a b. ordered_summary ?S ?T 1 = Inr a
         \<and> ordered_summary ?S ?T (1 + 1) = Inr b
         \<and> extractive_summarize ?S ?T 1 = str_join '' '' a
         \<and> extractive_summarize ?S ?T (1 + 1) = str_join '' '' b
         \<and> set a \<subseteq> set b"
    by blast
  from count words most both one show ?thesis
    by (intro conjI)
qed

section \<open>The summarizer raises no exception\<close>

text \<open>
  C10: for every text and every integer \<open>num_sentences\<close>, the body of the \<open>try\<close> of
  \<open>extractive_summarize\<close> ends with a string, which is the result: the \<open>except\<close> branch is not
  taken. Every key of \<open>sentence_scores\<close> is a sentence of the list, so \<open>sentences.index\<close>
  finds it. All the loops of the model are total functions.
\<close>

theorem extractive_summarize_never_raises:
  "(\<exists>summary. extractive_try self text num_sentences = Inr summary
       \<and> extractive_summarize self text num_sentences = summary)
   \<and> (\<forall>x\<in>set (sentence_scores self text).
         \<exists>i. list_index (simple_sentence_tokenize text) (fst x) = Inr i)"
proof
  obtain ss where "ordered_summary self text num_sentences = Inr ss"
    by (simp add: ordered_summary_eq)
  then have "\<exists>summary. extractive_try self text num_sentences = Inr summary"
    by (simp add: extractive_try_def)
  then show "\<exists>summary. extractive_try self text num_sentences = Inr summary
       \<and> extractive_summarize self text num_sentences = summary"
    by (auto simp: extractive_summarize_def)
  show "\<forall>x\<in>set (sentence_scores self text).
         \<exists>i. list_index (simple_sentence_tokenize text) (fst x) = Inr i"
  proof
    fix x
    assume "x \<in> set (sentence_scores self text)"
    then have "fst x \<in> set (simple_sentence_tokenize text)"
      using keys_sentence_scores by blast
    then show "\<exists>i. list_index (simple_sentence_tokenize text) (fst x) = Inr i"
      by (rule list_index_mem)
  qed
qed

theorem extractive_summarize_never_raises_witness:
  "(\<exists>summary. extractive_try (TextSummarizer_init (\<lambda>p. Inr p)) ''Cats are great. Cats sleep a lot. Cats are independent animals.'' 1 = Inr summary
       \<and> extractive_summarize (TextSummarizer_init (\<lambda>p. Inr p)) ''Cats are great. Cats sleep a lot. Cats are independent animals.'' 1 = summary)
   \<and> (\<exists>i. list_index (simple_sentence_tokenize ''Cats are great. Cats sleep a lot. Cats are independent animals.'') ''Cats sleep a lot'' = Inr i)
   \<and> extractive_try (TextSummarizer_init (\<lambda>p. Inr p)) ''Cats are great. Cats sleep a lot. Cats are independent animals.'' 1
       = Inr ''Cats are independent animals''"
proof -
  let ?T = "''Cats are great. Cats sleep a lot. Cats are independent animals.''"
  let ?S = "TextSummarizer_init (\<lambda>p. Inr p)"
  have key: "(''Cats sleep a lot'', 6) \<in> set (sentence_scores ?S ?T)"
    by code_simp
  have result: "extractive_try ?S ?T 1 = Inr ''Cats are independent animals''"
    by code_simp
  from extractive_summarize_never_raises [of ?S ?T 1]
  have returns: "\<exists>summary. extractive_try ?S ?T 1 = Inr summary
       \<and> extractive_summarize ?S ?T 1 = summary"
    and found: "\<forall>x\<in>set (sentence_scores ?S ?T).
         \<exists>i. list_index (simple_sentence_tokenize ?T) (fst x) = Inr i"
    by blast+
  from found key
  have "\<exists>i. list_index (simple_sentence_tokenize ?T) (fst (''Cats sleep a lot'', 6::int)) = Inr i"
    by (rule bspec)
  then have index: "\<exists>i. list_index (simple_sentence_tokenize ?T) ''Cats sleep a lot'' = Inr i"
    by (simp only: fst_conv)
  from returns index result show ?thesis
    by (intro conjI)
qed

end
